theory Spec2Isabelle
  imports Main "HOL-Library.Word" "HOL-Library.Multiset" "HOL-Library.Stream"
begin

section \<open>The run-loop scheduler of src/kernel/schedule.c\<close>

text \<open>
  A shallow embedding of one CPU's pass through \<open>runloop_internal\<close> and of the
  functions it calls. The kernel state the scheduler reads and writes is a record; the
  code the scheduler calls but does not contain (closures, the timer heap, the clock,
  the platform timer) is an environment of functions over that record, so a closure
  may change any part of the state. Every call the pass makes to a queue, the lock,
  the clock, the platform timer or another CPU is written to a trace, in program order.
\<close>

subsection \<open>Data\<close>

type_synonym u64 = "64 word"
type_synonym timestamp = u64

text \<open>A thunk is an opaque closure; only its identity matters here.\<close>

type_synonym thunk = nat

datatype cpu_state = cpu_not_present | cpu_idle | cpu_kernel | cpu_interrupt | cpu_user

text \<open>
  The fields of \<open>struct cpuinfo\<close> that schedule.c uses. The per-CPU field
  \<open>last_timer_update\<close> is named \<open>cpu_last_timer_update\<close> to keep it apart from
  the global of the same name. The CPU's id is its index in \<open>cpuinfo_from_id\<close>.
\<close>

record cpuinfo =
  state :: cpu_state
  thread_queue :: "thunk list"
  cpu_last_timer_update :: timestamp
  have_kernel_lock :: bool

type_synonym bitmap = "nat \<Rightarrow> bool"

text \<open>
  The globals of schedule.c, \<open>total_processors\<close> and the table behind
  \<open>cpuinfo_from_id\<close>. \<open>idle_cpu_mask\<close> is a pointer: \<open>None\<close> is the null
  pointer it holds until \<open>init_scheduler_cpus\<close> runs. \<open>kernel_lock\<close> is true
  while some CPU holds the spinlock. \<open>ext\<close> is the rest of the kernel (timer heap,
  clock, threads), which only the environment reads.
\<close>

record 'x sched =
  runqueue :: "thunk list"
  bhqueue :: "thunk list"
  idle_cpu_mask :: "bitmap option"
  last_timer_update :: timestamp
  runloop_timer_min :: timestamp
  runloop_timer_max :: timestamp
  kernel_lock :: bool
  shutting_down :: bool
  total_processors :: nat
  cpuinfo_from_id :: "nat \<Rightarrow> cpuinfo"
  ext :: 'x

text \<open>
  The code called from schedule.c that is not part of it. \<open>apply_thunk\<close> is
  \<open>apply(t)\<close>; \<open>get_current_thread\<close> gives the pause closure \<open>nt->pause\<close> of the
  thread running on the given CPU, \<open>None\<close> for a null thread. Closures,
  \<open>timer_service\<close>, \<open>mm_service\<close> and the interrupts taken in
  \<open>wait_for_interrupt\<close> run kernel code and may change all of the state. The clock
  \<open>now(CLOCK_ID_MONOTONIC_RAW)\<close>, the next deadline \<open>timer_check(runloop_timers)\<close>
  and the platform timer \<open>runloop_timer\<close> belong to \<open>ext\<close>: they read and change
  nothing else.
\<close>

record 'x env =
  apply_thunk :: "thunk \<Rightarrow> 'x sched \<Rightarrow> 'x sched"
  get_current_thread :: "nat \<Rightarrow> 'x sched \<Rightarrow> thunk option"
  timer_service :: "timestamp \<Rightarrow> 'x sched \<Rightarrow> 'x sched"
  mm_service :: "'x sched \<Rightarrow> 'x sched"
  wait_for_interrupt :: "'x sched \<Rightarrow> 'x sched"
  now :: "'x \<Rightarrow> timestamp \<times> 'x"
  timer_check :: "'x \<Rightarrow> timestamp \<times> 'x"
  runloop_timer :: "timestamp \<Rightarrow> 'x \<Rightarrow> 'x"

datatype queue_id = BHQ | RUNQ | TQ nat

text \<open>
  What a pass does, as seen from outside: \<open>EvDequeue q r\<close> is a call of
  \<open>dequeue\<close> on queue \<open>q\<close> with result \<open>r\<close> (\<open>None\<close> for INVALID_ADDRESS),
  \<open>EvEnqueue q t ok\<close> a call of \<open>enqueue\<close> and its result, \<open>EvRun\<close> a call of
  \<open>run_thunk\<close>, \<open>EvPause\<close> the application of a pause closure, \<open>EvWakeup\<close> a
  call of \<open>wakeup_cpu\<close> and \<open>EvIpi\<close> the \<open>send_ipi\<close> it may make.
\<close>

datatype event =
    EvPause thunk
  | EvDequeue queue_id "thunk option"
  | EvEnqueue queue_id thunk bool
  | EvRun thunk
  | EvTryLock bool
  | EvUnlock
  | EvNow timestamp
  | EvTimerService timestamp
  | EvMmService
  | EvRunloopTimer timestamp
  | EvWakeup nat
  | EvIpi nat
  | EvSleep

text \<open>
  How a pass can fail to reach \<open>kernel_sleep\<close>: a null \<open>idle_cpu_mask\<close> is
  dereferenced, an \<open>assert\<close> fails, a drain loop is still running when the model's
  fuel is used up, or the scan of busy CPUs can never meet its exit test.
\<close>

datatype fault = NullDeref | AssertFailed | OutOfFuel | NoExit

subsection \<open>Queues and bitmaps\<close>

text \<open>
  Modelled from the spec: the bounded queue behind \<open>dequeue\<close>, \<open>enqueue\<close> and
  \<open>queue_empty\<close> (queue.h is not among the sources). A queue is FIFO with
  capacity 2048; \<open>dequeue\<close> returns a sentinel on empty and \<open>enqueue\<close> returns
  failure on full.
\<close>

definition queue_capacity :: nat where
  "queue_capacity = 2048"

definition dequeue :: "thunk list \<Rightarrow> thunk option \<times> thunk list" where
  "dequeue q = (case q of [] \<Rightarrow> (None, []) | t # r \<Rightarrow> (Some t, r))"

definition enqueue :: "thunk list \<Rightarrow> thunk \<Rightarrow> bool \<times> thunk list" where
  "enqueue q t = (if length q < queue_capacity then (True, q @ [t]) else (False, q))"

definition queue_empty :: "thunk list \<Rightarrow> bool" where
  "queue_empty q = (q = [])"

text \<open>
  Modelled from the spec: the atomic bitmap (bitmap.h is not among the sources).
  \<open>bitmap_range_get_first b start n\<close> is the first set bit among the \<open>n\<close> bits from
  \<open>start\<close>, \<open>None\<close> (INVALID_PHYSICAL) when there is none;
  \<open>bitmap_test_and_set_atomic\<close> writes a bit and returns its prior value.
\<close>

fun bitmap_range_get_first :: "bitmap \<Rightarrow> nat \<Rightarrow> nat \<Rightarrow> nat option" where
  "bitmap_range_get_first b start 0 = None"
| "bitmap_range_get_first b start (Suc n) =
     (if b start then Some start else bitmap_range_get_first b (Suc start) n)"

definition bitmap_set_atomic :: "bitmap \<Rightarrow> nat \<Rightarrow> bool \<Rightarrow> bitmap" where
  "bitmap_set_atomic b i v = b(i := v)"

definition bitmap_test_and_set_atomic :: "bitmap \<Rightarrow> nat \<Rightarrow> bool \<Rightarrow> bool \<times> bitmap" where
  "bitmap_test_and_set_atomic b i v = (b i, b(i := v))"

subsection \<open>Field updates of one CPU\<close>

definition set_cpu_state :: "nat \<Rightarrow> cpu_state \<Rightarrow> 'x sched \<Rightarrow> 'x sched" where
  "set_cpu_state c v s =
     s\<lparr>cpuinfo_from_id := (cpuinfo_from_id s)(c := (cpuinfo_from_id s c)\<lparr>state := v\<rparr>)\<rparr>"

definition set_thread_queue :: "nat \<Rightarrow> thunk list \<Rightarrow> 'x sched \<Rightarrow> 'x sched" where
  "set_thread_queue c q s =
     s\<lparr>cpuinfo_from_id := (cpuinfo_from_id s)(c := (cpuinfo_from_id s c)\<lparr>thread_queue := q\<rparr>)\<rparr>"

definition set_cpu_timer :: "nat \<Rightarrow> timestamp \<Rightarrow> 'x sched \<Rightarrow> 'x sched" where
  "set_cpu_timer c v s =
     s\<lparr>cpuinfo_from_id :=
         (cpuinfo_from_id s)(c := (cpuinfo_from_id s c)\<lparr>cpu_last_timer_update := v\<rparr>)\<rparr>"

definition set_have_lock :: "nat \<Rightarrow> bool \<Rightarrow> 'x sched \<Rightarrow> 'x sched" where
  "set_have_lock c v s =
     s\<lparr>cpuinfo_from_id :=
         (cpuinfo_from_id s)(c := (cpuinfo_from_id s c)\<lparr>have_kernel_lock := v\<rparr>)\<rparr>"

subsection \<open>The kernel lock\<close>

text \<open>
  \<open>kern_try_lock\<close> and \<open>kern_unlock\<close> on CPU \<open>self\<close>; \<open>spin_try\<close> succeeds
  exactly when the lock is free.
\<close>

definition kern_try_lock :: "nat \<Rightarrow> 'x sched \<Rightarrow> fault + (bool \<times> 'x sched)" where
  "kern_try_lock self s =
     (if state (cpuinfo_from_id s self) = cpu_interrupt then Inl AssertFailed
      else if kernel_lock s then Inr (False, s)
      else Inr (True, set_have_lock self True (s\<lparr>kernel_lock := True\<rparr>)))"

definition kern_unlock :: "nat \<Rightarrow> 'x sched \<Rightarrow> fault + 'x sched" where
  "kern_unlock self s =
     (if state (cpuinfo_from_id s self) = cpu_interrupt then Inl AssertFailed
      else Inr ((set_have_lock self False s)\<lparr>kernel_lock := False\<rparr>))"

subsection \<open>The platform timer\<close>

text \<open>
  Line 93 of schedule.c. \<open>delta\<close> is an s64 and is compared as one with
  \<open>(s64)runloop_timer_min\<close>. Modelled from the spec: the macro MIN, which is not
  among the sources, gives the smaller of its two arguments (the spec's clamp to
  \<open>max\<close>); in it \<open>delta\<close> meets the u64 \<open>runloop_timer_max\<close> and is compared
  unsigned, and the result is a u64.
\<close>

definition timer_timeout :: "timestamp \<Rightarrow> timestamp \<Rightarrow> u64 \<Rightarrow> timestamp" where
  "timer_timeout tmin tmax delta =
     (if sint tmin < sint delta then (if delta < tmax then delta else tmax) else tmin)"

text \<open>
  \<open>update_timer\<close>, called with the kernel lock held on CPU \<open>self\<close>. The result is
  the returned boolean, the state and the calls made.
\<close>

definition update_timer :: "'x env \<Rightarrow> nat \<Rightarrow> 'x sched \<Rightarrow> bool \<times> 'x sched \<times> event list" where
  "update_timer E self s =
     (let (nxt, x1) = timer_check E (ext s) in
      if last_timer_update s \<noteq> 0 \<and> nxt = last_timer_update s then (False, s\<lparr>ext := x1\<rparr>, [])
      else
        let (nw, x2) = now E x1;
            delta = nxt - nw;
            timeout = timer_timeout (runloop_timer_min s) (runloop_timer_max s) delta;
            deadline = nxt + timeout - delta;
            s3 = set_cpu_timer self deadline (s\<lparr>last_timer_update := deadline\<rparr>)
        in (True, s3\<lparr>ext := runloop_timer E timeout x2\<rparr>, [EvNow nw, EvRunloopTimer timeout]))"

subsection \<open>Closures\<close>

definition run_thunk :: "'x env \<Rightarrow> thunk \<Rightarrow> 'x sched \<Rightarrow> 'x sched" where
  "run_thunk E t s = apply_thunk E t s"

text \<open>\<open>sched_thread_pause\<close> on CPU \<open>self\<close>.\<close>

definition sched_thread_pause :: "'x env \<Rightarrow> nat \<Rightarrow> 'x sched \<Rightarrow> 'x sched \<times> event list" where
  "sched_thread_pause E self s =
     (if shutting_down s then (s, [])
      else case get_current_thread E self s of
             None \<Rightarrow> (s, [])
           | Some p \<Rightarrow> (apply_thunk E p s, [EvPause p]))"

subsection \<open>Going to sleep\<close>

text \<open>
  Lines 115 to 119 of \<open>kernel_sleep\<close>: the CPU is marked idle, in its own state and,
  when \<open>idle_cpu_mask\<close> has been allocated, in the mask.
\<close>

definition kernel_sleep_enter :: "nat \<Rightarrow> 'x sched \<Rightarrow> 'x sched" where
  "kernel_sleep_enter self s =
     (let s1 = set_cpu_state self cpu_idle s in
      case idle_cpu_mask s1 of
        None \<Rightarrow> s1
      | Some b \<Rightarrow> s1\<lparr>idle_cpu_mask := Some (bitmap_set_atomic b self True)\<rparr>)"

text \<open>
  \<open>kernel_sleep\<close>. The loop \<open>while (1) wait_for_interrupt();\<close> of lines 122 and 123
  has no exit, so the function has no state to return with: it is the run of the CPU
  from the call on, the sequence without end of the states in which the test of the
  loop is reached. The first is the state lines 115 to 119 leave, and each round of the
  loop is one call of \<open>wait_for_interrupt\<close> and nothing else.
\<close>

definition kernel_sleep :: "'x env \<Rightarrow> nat \<Rightarrow> 'x sched \<Rightarrow> 'x sched stream" where
  "kernel_sleep E self s = siterate (wait_for_interrupt E) (kernel_sleep_enter self s)"

subsection \<open>Waking and migrating\<close>

definition wakeup_cpu :: "nat \<Rightarrow> 'x sched \<Rightarrow> fault + ('x sched \<times> event list)" where
  "wakeup_cpu cpu s =
     (case idle_cpu_mask s of
        None \<Rightarrow> Inl NullDeref
      | Some b \<Rightarrow>
          (let (was, b') = bitmap_test_and_set_atomic b cpu False;
               s' = s\<lparr>idle_cpu_mask := Some b'\<rparr>
           in if was then Inr (s', [EvWakeup cpu, EvIpi cpu]) else Inr (s', [EvWakeup cpu])))"

text \<open>
  The body of the loop of \<open>migrate_to_self\<close> (lines 150 to 157) for one idle CPU
  \<open>cpu\<close>, with \<open>t\<close> the thread held so far.
\<close>

definition to_self_step ::
  "thunk option \<Rightarrow> nat \<Rightarrow> 'x sched \<Rightarrow> fault + (thunk option \<times> 'x sched \<times> event list)" where
  "to_self_step t cpu s =
     (let (t1, s1, ev1) =
            (if t = None then
               (case dequeue (thread_queue (cpuinfo_from_id s cpu)) of
                  (None, q) \<Rightarrow> (None, s, [EvDequeue (TQ cpu) None])
                | (Some x, q) \<Rightarrow>
                    (Some x, set_thread_queue cpu q s, [EvDequeue (TQ cpu) (Some x)]))
             else (t, s, []))
      in if t1 \<noteq> None \<and> \<not> queue_empty (thread_queue (cpuinfo_from_id s1 cpu)) then
           (case wakeup_cpu cpu s1 of
              Inl e \<Rightarrow> Inl e
            | Inr (s2, ev2) \<Rightarrow> Inr (t1, s2, ev1 @ ev2))
         else Inr (t1, s1, ev1))"

text \<open>
  \<open>migrate_to_self\<close>; the last argument collects the calls made so far. The scan
  reads the mask only when \<open>ncpus > 0\<close>.
\<close>

function migrate_to_self ::
  "thunk option \<Rightarrow> nat \<Rightarrow> nat \<Rightarrow> 'x sched \<Rightarrow> event list
     \<Rightarrow> fault + (thunk option \<times> 'x sched \<times> event list)" where
  "migrate_to_self t first_cpu ncpus s tr =
     (if ncpus = 0 then Inr (t, s, tr)
      else case idle_cpu_mask s of
        None \<Rightarrow> Inl NullDeref
      | Some b \<Rightarrow>
          (case bitmap_range_get_first b first_cpu ncpus of
             None \<Rightarrow> Inr (t, s, tr)
           | Some cpu \<Rightarrow>
               (case to_self_step t cpu s of
                  Inl e \<Rightarrow> Inl e
                | Inr (t', s', ev) \<Rightarrow>
                    migrate_to_self t' (cpu + 1) (ncpus - (cpu - first_cpu + 1)) s' (tr @ ev))))"
  by pat_completeness auto
termination
  by (relation "measure (\<lambda>(t, first_cpu, ncpus, s, tr). ncpus)") auto

text \<open>
  The body of the loop of \<open>migrate_from_self\<close> (lines 169 to 177) for one idle CPU
  \<open>cpu\<close>; \<open>self\<close> is the id of \<open>ci\<close>. The result of \<open>enqueue\<close> is not looked at.
\<close>

definition from_self_step :: "nat \<Rightarrow> nat \<Rightarrow> 'x sched \<Rightarrow> fault + ('x sched \<times> event list)" where
  "from_self_step self cpu s =
     (if \<not> queue_empty (thread_queue (cpuinfo_from_id s cpu)) then wakeup_cpu cpu s
      else case dequeue (thread_queue (cpuinfo_from_id s self)) of
        (None, q) \<Rightarrow> Inr (s, [EvDequeue (TQ self) None])
      | (Some t, q) \<Rightarrow>
          (let s1 = set_thread_queue self q s;
               (ok, q') = enqueue (thread_queue (cpuinfo_from_id s1 cpu)) t;
               s2 = set_thread_queue cpu q' s1
           in case wakeup_cpu cpu s2 of
                Inl e \<Rightarrow> Inl e
              | Inr (s3, ev) \<Rightarrow>
                  Inr (s3, [EvDequeue (TQ self) (Some t), EvEnqueue (TQ cpu) t ok] @ ev)))"

function migrate_from_self ::
  "nat \<Rightarrow> nat \<Rightarrow> nat \<Rightarrow> 'x sched \<Rightarrow> event list \<Rightarrow> fault + ('x sched \<times> event list)" where
  "migrate_from_self self first_cpu ncpus s tr =
     (if ncpus = 0 then Inr (s, tr)
      else case idle_cpu_mask s of
        None \<Rightarrow> Inl NullDeref
      | Some b \<Rightarrow>
          (case bitmap_range_get_first b first_cpu ncpus of
             None \<Rightarrow> Inr (s, tr)
           | Some cpu \<Rightarrow>
               (case from_self_step self cpu s of
                  Inl e \<Rightarrow> Inl e
                | Inr (s', ev) \<Rightarrow>
                    migrate_from_self self (cpu + 1) (ncpus - (cpu - first_cpu + 1)) s' (tr @ ev))))"
  by pat_completeness auto
termination
  by (relation "measure (\<lambda>(self, first_cpu, ncpus, s, tr). ncpus)") auto

text \<open>
  The loop of lines 231 to 244, entered with \<open>cpu = ci->id + 1\<close>: the scan of the
  CPUs that run a user thread. Its only exits are \<open>cpu == ci->id\<close> and a thread
  found, and \<open>cpu\<close> is set back to 0 only at \<open>total_processors\<close>: started beyond
  \<open>total_processors\<close>, or with \<open>ci->id\<close> not below it, the loop does not leave
  through its exit test.
\<close>

function steal_busy ::
  "nat \<Rightarrow> nat \<Rightarrow> 'x sched \<Rightarrow> event list \<Rightarrow> fault + (thunk option \<times> 'x sched \<times> event list)" where
  "steal_busy self cpu s tr =
     (if total_processors s \<le> self \<or> total_processors s < cpu then Inl NoExit
      else if (if cpu = total_processors s then 0 else cpu) = self then Inr (None, s, tr)
      else if state (cpuinfo_from_id s (if cpu = total_processors s then 0 else cpu)) = cpu_user then
        (case dequeue (thread_queue (cpuinfo_from_id s (if cpu = total_processors s then 0 else cpu))) of
           (Some t, q) \<Rightarrow>
             Inr (Some t, set_thread_queue (if cpu = total_processors s then 0 else cpu) q s,
                  tr @ [EvDequeue (TQ (if cpu = total_processors s then 0 else cpu)) (Some t)])
         | (None, q) \<Rightarrow>
             steal_busy self ((if cpu = total_processors s then 0 else cpu) + 1) s
               (tr @ [EvDequeue (TQ (if cpu = total_processors s then 0 else cpu)) None]))
      else steal_busy self ((if cpu = total_processors s then 0 else cpu) + 1) s tr)"
  by pat_completeness auto
termination
  by (relation "measure (\<lambda>(self, cpu, s, tr).
        (if (if cpu = total_processors s then 0 else cpu) \<le> self
         then self - (if cpu = total_processors s then 0 else cpu)
         else self + total_processors s - (if cpu = total_processors s then 0 else cpu)))")
     (auto split: if_splits)

declare migrate_to_self.simps [simp del] migrate_from_self.simps [simp del]
  steal_busy.simps [simp del]

subsection \<open>The phases of a pass\<close>

text \<open>
  The loop \<open>while ((t = dequeue(q)) != INVALID_ADDRESS) run_thunk(t);\<close> of lines 201
  and 209, for \<open>bhqueue\<close> and for \<open>runqueue\<close>. A closure may enqueue again, so the
  loop need not end: the first argument bounds the number of rounds.
\<close>

fun drain_bhqueue ::
  "nat \<Rightarrow> 'x env \<Rightarrow> 'x sched \<Rightarrow> event list \<Rightarrow> fault + ('x sched \<times> event list)" where
  "drain_bhqueue 0 E s tr = Inl OutOfFuel"
| "drain_bhqueue (Suc n) E s tr =
     (case dequeue (bhqueue s) of
        (None, q) \<Rightarrow> Inr (s, tr @ [EvDequeue BHQ None])
      | (Some t, q) \<Rightarrow>
          drain_bhqueue n E (run_thunk E t (s\<lparr>bhqueue := q\<rparr>))
            (tr @ [EvDequeue BHQ (Some t), EvRun t]))"

fun drain_runqueue ::
  "nat \<Rightarrow> 'x env \<Rightarrow> 'x sched \<Rightarrow> event list \<Rightarrow> fault + ('x sched \<times> event list)" where
  "drain_runqueue 0 E s tr = Inl OutOfFuel"
| "drain_runqueue (Suc n) E s tr =
     (case dequeue (runqueue s) of
        (None, q) \<Rightarrow> Inr (s, tr @ [EvDequeue RUNQ None])
      | (Some t, q) \<Rightarrow>
          drain_runqueue n E (run_thunk E t (s\<lparr>runqueue := q\<rparr>))
            (tr @ [EvDequeue RUNQ (Some t), EvRun t]))"

text \<open>
  Lines 206 to 215: what is done under the kernel lock. The result holds
  \<open>timer_updated\<close>.
\<close>

definition locked_work ::
  "nat \<Rightarrow> 'x env \<Rightarrow> nat \<Rightarrow> 'x sched \<Rightarrow> fault + (bool \<times> 'x sched \<times> event list)" where
  "locked_work fuel E self s =
     (let s1 = set_cpu_state self cpu_kernel s;
          (nw, x2) = now E (ext s1);
          s3 = timer_service E nw (s1\<lparr>ext := x2\<rparr>)
      in case drain_runqueue fuel E s3 [EvNow nw, EvTimerService nw] of
           Inl e \<Rightarrow> Inl e
         | Inr (s4, tr4) \<Rightarrow>
             (let s5 = mm_service E s4;
                  (timer_updated, s6, tr6) = update_timer E self s5
              in case kern_unlock self s6 of
                   Inl e \<Rightarrow> Inl e
                 | Inr s7 \<Rightarrow> Inr (timer_updated, s7, tr4 @ [EvMmService] @ tr6 @ [EvUnlock])))"

text \<open>Lines 204 to 216.\<close>

definition lock_phase ::
  "nat \<Rightarrow> 'x env \<Rightarrow> nat \<Rightarrow> 'x sched \<Rightarrow> fault + (bool \<times> 'x sched \<times> event list)" where
  "lock_phase fuel E self s =
     (case kern_try_lock self s of
        Inl e \<Rightarrow> Inl e
      | Inr (False, s1) \<Rightarrow> Inr (False, s1, [EvTryLock False])
      | Inr (True, s1) \<Rightarrow>
          (case locked_work fuel E self s1 of
             Inl e \<Rightarrow> Inl e
           | Inr (timer_updated, s2, tr) \<Rightarrow> Inr (timer_updated, s2, EvTryLock True # tr)))"

text \<open>
  Lines 219 to 253: the choice of a thread, made when \<open>shutting_down\<close> is false.
\<close>

definition select_thread ::
  "nat \<Rightarrow> 'x sched \<Rightarrow> fault + (thunk option \<times> 'x sched \<times> event list)" where
  "select_thread self s =
     (case dequeue (thread_queue (cpuinfo_from_id s self)) of
        (None, q) \<Rightarrow>
          (let tr0 = [EvDequeue (TQ self) None] in
           case (if self + 1 < total_processors s
                 then migrate_to_self None (self + 1) (total_processors s - self - 1) s tr0
                 else Inr (None, s, tr0)) of
             Inl e \<Rightarrow> Inl e
           | Inr (t1, s1, tr1) \<Rightarrow>
               (case (if 0 < self then migrate_to_self t1 0 self s1 tr1
                      else Inr (t1, s1, tr1)) of
                  Inl e \<Rightarrow> Inl e
                | Inr (t2, s2, tr2) \<Rightarrow>
                    (if t2 = None then steal_busy self (self + 1) s2 tr2
                     else Inr (t2, s2, tr2))))
      | (Some t, q) \<Rightarrow>
          (let s0 = set_thread_queue self q s; tr0 = [EvDequeue (TQ self) (Some t)] in
           case (if self + 1 < total_processors s0
                 then migrate_from_self self (self + 1) (total_processors s0 - self - 1) s0 tr0
                 else Inr (s0, tr0)) of
             Inl e \<Rightarrow> Inl e
           | Inr (s1, tr1) \<Rightarrow>
               (case (if 0 < self then migrate_from_self self 0 self s1 tr1
                      else Inr (s1, tr1)) of
                  Inl e \<Rightarrow> Inl e
                | Inr (s2, tr2) \<Rightarrow> Inr (Some t, s2, tr2))))"

text \<open>
  Lines 256 to 262: the timer of this CPU, looked at when a thread was found, the
  platform timer was not set in this pass and there is more than one CPU.
  \<open>timeout\<close> is an s64; it is compared as one with 0 and unsigned with the u64
  \<open>runloop_timer_max\<close>.
\<close>

definition thread_timer :: "'x env \<Rightarrow> nat \<Rightarrow> 'x sched \<Rightarrow> 'x sched \<times> event list" where
  "thread_timer E self s =
     (let (here, x1) = now E (ext s);
          timeout = cpu_last_timer_update (cpuinfo_from_id s self) - here
      in if sint timeout < 0 \<or> runloop_timer_max s < timeout then
           (set_cpu_timer self (here + runloop_timer_max s)
              (s\<lparr>ext := runloop_timer E (runloop_timer_max s) x1\<rparr>),
            [EvNow here, EvRunloopTimer (runloop_timer_max s)])
         else (s\<lparr>ext := x1\<rparr>, [EvNow here]))"

text \<open>Lines 254 to 265.\<close>

definition run_thread ::
  "'x env \<Rightarrow> nat \<Rightarrow> bool \<Rightarrow> thunk option \<Rightarrow> 'x sched \<Rightarrow> 'x sched \<times> event list" where
  "run_thread E self timer_updated t s =
     (case t of
        None \<Rightarrow> (s, [])
      | Some x \<Rightarrow>
          (let (s1, tr1) = (if \<not> timer_updated \<and> 1 < total_processors s
                            then thread_timer E self s else (s, []))
           in (run_thunk E x s1, tr1 @ [EvRun x])))"

text \<open>Lines 218 to 266.\<close>

definition thread_phase ::
  "'x env \<Rightarrow> nat \<Rightarrow> bool \<Rightarrow> 'x sched \<Rightarrow> fault + ('x sched \<times> event list)" where
  "thread_phase E self timer_updated s =
     (if shutting_down s then Inr (s, [])
      else case select_thread self s of
             Inl e \<Rightarrow> Inl e
           | Inr (t, s1, tr1) \<Rightarrow>
               (let (s2, tr2) = run_thread E self timer_updated t s1 in Inr (s2, tr1 @ tr2)))"

text \<open>
  Lines 190 to 216 of \<open>runloop_internal\<close>: the pause of the current thread, the
  drain of \<open>bhqueue\<close> and the work under the kernel lock. \<open>disable_interrupts\<close>
  and \<open>page_invalidate_flush\<close> touch nothing of the state above.
\<close>

definition runloop_to_unlock ::
  "nat \<Rightarrow> 'x env \<Rightarrow> nat \<Rightarrow> 'x sched \<Rightarrow> fault + (bool \<times> 'x sched \<times> event list)" where
  "runloop_to_unlock fuel E self s =
     (let (s0, tr0) = sched_thread_pause E self s;
          s1 = set_cpu_state self cpu_kernel s0
      in case drain_bhqueue fuel E s1 tr0 of
           Inl e \<Rightarrow> Inl e
         | Inr (s2, tr2) \<Rightarrow>
             (case lock_phase fuel E self s2 of
                Inl e \<Rightarrow> Inl e
              | Inr (timer_updated, s3, tr3) \<Rightarrow> Inr (timer_updated, s3, tr2 @ tr3)))"

text \<open>
  One pass of \<open>runloop_internal\<close> on CPU \<open>self\<close>, up to the loop of
  \<open>kernel_sleep\<close>, which it never leaves: the result is the state the CPU goes
  to sleep with and the calls it made on the way.
\<close>

definition runloop_internal ::
  "nat \<Rightarrow> 'x env \<Rightarrow> nat \<Rightarrow> 'x sched \<Rightarrow> fault + ('x sched \<times> event list)" where
  "runloop_internal fuel E self s =
     (case runloop_to_unlock fuel E self s of
        Inl e \<Rightarrow> Inl e
      | Inr (timer_updated, s3, tr3) \<Rightarrow>
          (case thread_phase E self timer_updated s3 of
             Inl e \<Rightarrow> Inl e
           | Inr (s4, tr4) \<Rightarrow>
               (let (s5, tr5) = sched_thread_pause E self s4
                in Inr (kernel_sleep_enter self s5, tr3 @ tr4 @ tr5 @ [EvSleep]))))"

subsection \<open>Reading a trace\<close>

text \<open>The timeouts handed to \<open>runloop_timer\<close>, in order.\<close>

fun timer_calls :: "event list \<Rightarrow> timestamp list" where
  "timer_calls [] = []"
| "timer_calls (EvRunloopTimer x # tr) = x # timer_calls tr"
| "timer_calls (e # tr) = timer_calls tr"

subsection \<open>Example configurations\<close>

text \<open>
  An environment in which closures and services leave the scheduler's state alone, no
  thread is current, the next deadline of the timer heap is \<open>nxt\<close>, and the clock is
  a counter kept in \<open>ext\<close> that advances by one with every reading.
\<close>

definition quiet_env :: "timestamp \<Rightarrow> nat env" where
  "quiet_env nxt =
     \<lparr>apply_thunk = (\<lambda>t s. s),
      get_current_thread = (\<lambda>c s. None),
      timer_service = (\<lambda>t s. s),
      mm_service = (\<lambda>s. s),
      wait_for_interrupt = (\<lambda>s. s),
      now = (\<lambda>x. (of_nat x, Suc x)),
      timer_check = (\<lambda>x. (nxt, x)),
      runloop_timer = (\<lambda>t x. x)\<rparr>"

definition fresh_cpu :: cpuinfo where
  "fresh_cpu =
     \<lparr>state = cpu_kernel, thread_queue = [], cpu_last_timer_update = 0,
      have_kernel_lock = False\<rparr>"

text \<open>
  A kernel with \<open>n\<close> CPUs, empty queues, an allocated and empty idle mask, and the
  given timer bounds, last programmed deadline and clock.
\<close>

definition plain_sched :: "nat \<Rightarrow> timestamp \<Rightarrow> timestamp \<Rightarrow> timestamp \<Rightarrow> nat \<Rightarrow> nat sched" where
  "plain_sched n tmin tmax ltu clock =
     \<lparr>runqueue = [], bhqueue = [], idle_cpu_mask = Some (\<lambda>c. False),
      last_timer_update = ltu, runloop_timer_min = tmin, runloop_timer_max = tmax,
      kernel_lock = False, shutting_down = False, total_processors = n,
      cpuinfo_from_id = (\<lambda>c. fresh_cpu), ext = clock\<rparr>"

text \<open>CPU \<open>c\<close> is marked in an allocated idle mask.\<close>

definition idle_marked :: "nat \<Rightarrow> 'x sched \<Rightarrow> bool" where
  "idle_marked c s = (case idle_cpu_mask s of None \<Rightarrow> False | Some b \<Rightarrow> b c)"

text \<open>The kernel before \<open>init_scheduler_cpus\<close>: the idle mask is still null.\<close>

definition early_sched :: "nat sched" where
  "early_sched = (plain_sched 2 1 100 0 10)\<lparr>idle_cpu_mask := None\<rparr>"

text \<open>The events of a call of \<open>wakeup_cpu\<close> on a CPU, given the mask before it.\<close>

definition wakeup_events :: "bitmap \<Rightarrow> nat \<Rightarrow> event list" where
  "wakeup_events b cpu = (if b cpu then [EvWakeup cpu, EvIpi cpu] else [EvWakeup cpu])"

definition clear_idle :: "bitmap \<Rightarrow> nat \<Rightarrow> 'x sched \<Rightarrow> 'x sched" where
  "clear_idle b cpu s = s\<lparr>idle_cpu_mask := Some (b(cpu := False))\<rparr>"

text \<open>
  The spec's description of a scan, "on each idle CPU found": the body of the loop,
  done for each CPU of a list in turn.
\<close>

fun to_self_steps ::
  "thunk option \<Rightarrow> nat list \<Rightarrow> 'x sched \<Rightarrow> event list
     \<Rightarrow> fault + (thunk option \<times> 'x sched \<times> event list)" where
  "to_self_steps t [] s tr = Inr (t, s, tr)"
| "to_self_steps t (c # cs) s tr =
     (case to_self_step t c s of
        Inl e \<Rightarrow> Inl e
      | Inr (t', s', ev) \<Rightarrow> to_self_steps t' cs s' (tr @ ev))"

fun from_self_steps ::
  "nat \<Rightarrow> nat list \<Rightarrow> 'x sched \<Rightarrow> event list \<Rightarrow> fault + ('x sched \<times> event list)" where
  "from_self_steps self [] s tr = Inr (s, tr)"
| "from_self_steps self (c # cs) s tr =
     (case from_self_step self c s of
        Inl e \<Rightarrow> Inl e
      | Inr (s', ev) \<Rightarrow> from_self_steps self cs s' (tr @ ev))"

text \<open>
  A kernel with \<open>n\<close> CPUs whose thread queues, states and idle mask are given.
\<close>

definition queues_sched ::
  "nat \<Rightarrow> (nat \<Rightarrow> thunk list) \<Rightarrow> (nat \<Rightarrow> cpu_state) \<Rightarrow> bitmap \<Rightarrow> nat sched" where
  "queues_sched n qs sts b =
     (plain_sched n 1 100 0 10)
       \<lparr>idle_cpu_mask := Some b,
        cpuinfo_from_id := (\<lambda>c. fresh_cpu\<lparr>state := sts c, thread_queue := qs c\<rparr>)\<rparr>"

text \<open>
  Three CPUs seen from CPU 0: CPU 1 and CPU 2 are idle and marked in the mask. In
  \<open>pull_demo\<close> CPU 0 has nothing queued and CPU 1 has two threads; in \<open>push_demo\<close>
  CPU 0 has two threads queued, CPU 1 none and CPU 2 one.
\<close>

definition pull_demo :: "nat sched" where
  "pull_demo =
     queues_sched 3 (\<lambda>c. if c = 1 then [5, 6] else [])
       (\<lambda>c. if c = 0 then cpu_kernel else cpu_idle) (\<lambda>c. c = 1 \<or> c = 2)"

definition push_demo :: "nat sched" where
  "push_demo =
     queues_sched 3 (\<lambda>c. if c = 0 then [7, 8] else if c = 2 then [9] else [])
       (\<lambda>c. if c = 0 then cpu_kernel else cpu_idle) (\<lambda>c. c = 1 \<or> c = 2)"

text \<open>
  The tasks a trace takes out of queues (\<open>dequeued\<close>), hands to \<open>run_thunk\<close>
  (\<open>applied\<close>) and puts back into a queue (\<open>requeued\<close>), each in order.
\<close>

fun deq_thunk :: "event \<Rightarrow> thunk list" where
  "deq_thunk (EvDequeue q (Some t)) = [t]"
| "deq_thunk e = []"

fun run_thunks :: "event \<Rightarrow> thunk list" where
  "run_thunks (EvRun t) = [t]"
| "run_thunks e = []"

fun enq_thunk :: "event \<Rightarrow> thunk list" where
  "enq_thunk (EvEnqueue q t True) = [t]"
| "enq_thunk e = []"

definition dequeued :: "event list \<Rightarrow> thunk list" where
  "dequeued tr = concat (map deq_thunk tr)"

definition applied :: "event list \<Rightarrow> thunk list" where
  "applied tr = concat (map run_thunks tr)"

definition requeued :: "event list \<Rightarrow> thunk list" where
  "requeued tr = concat (map enq_thunk tr)"

text \<open>
  An \<open>enqueue\<close> is good for CPU \<open>self\<close> when it succeeds and goes to the thread
  queue of another CPU; all other events are good.
\<close>

fun good_enqueue :: "nat \<Rightarrow> event \<Rightarrow> bool" where
  "good_enqueue self (EvEnqueue (TQ c) t ok) = (ok \<and> c \<noteq> self)"
| "good_enqueue self (EvEnqueue q t ok) = False"
| "good_enqueue self e = True"

text \<open>The thread a CPU holds, as a list.\<close>

definition held :: "thunk option \<Rightarrow> thunk list" where
  "held t = (case t of None \<Rightarrow> [] | Some x \<Rightarrow> [x])"

text \<open>
  The calls of a drain loop that runs the tasks \<open>ts\<close> of queue \<open>q\<close>: each is
  dequeued and run before the next is dequeued, and a last \<open>dequeue\<close> finds the
  queue empty.
\<close>

definition drain_events :: "queue_id \<Rightarrow> thunk list \<Rightarrow> event list" where
  "drain_events q ts = concat (map (\<lambda>t. [EvDequeue q (Some t), EvRun t]) ts) @ [EvDequeue q None]"

text \<open>
  Kinds of events: those of the choice of a thread (thread queues, wakeups); those of
  the platform timer; and those that can follow the kernel-lock block in a pass, which
  leave out every use of \<open>bhqueue\<close>, of \<open>runqueue\<close> and of the lock.
\<close>

fun thread_event :: "event \<Rightarrow> bool" where
  "thread_event (EvDequeue (TQ c) r) = True"
| "thread_event (EvEnqueue (TQ c) t ok) = True"
| "thread_event (EvWakeup c) = True"
| "thread_event (EvIpi c) = True"
| "thread_event e = False"

fun timer_event :: "event \<Rightarrow> bool" where
  "timer_event (EvNow t) = True"
| "timer_event (EvRunloopTimer t) = True"
| "timer_event e = False"

fun late_event :: "event \<Rightarrow> bool" where
  "late_event (EvDequeue BHQ r) = False"
| "late_event (EvDequeue RUNQ r) = False"
| "late_event (EvEnqueue BHQ t ok) = False"
| "late_event (EvEnqueue RUNQ t ok) = False"
| "late_event (EvTryLock b) = False"
| "late_event EvUnlock = False"
| "late_event (EvTimerService t) = False"
| "late_event EvMmService = False"
| "late_event e = True"

fun pause_event :: "event \<Rightarrow> bool" where
  "pause_event (EvPause p) = True"
| "pause_event e = False"

text \<open>
  CPU 0 of two, with two bottom halves, one task on \<open>runqueue\<close> and one thread
  queued, the kernel lock free and nothing programmed yet.
\<close>

definition busy_demo :: "nat sched" where
  "busy_demo =
     (queues_sched 2 (\<lambda>c. if c = 0 then [4] else []) (\<lambda>c. cpu_user) (\<lambda>c. False))
       \<lparr>bhqueue := [1, 2], runqueue := [3]\<rparr>"

text \<open>The configuration \<open>busy_demo\<close> after \<open>shutting_down\<close> was set.\<close>

definition shutdown_demo :: "nat sched" where
  "shutdown_demo = busy_demo\<lparr>shutting_down := True\<rparr>"

text \<open>
  Two more environments. In \<open>user_env\<close> every CPU has a current thread, whose pause
  closure is 42, and all else is as in \<open>quiet_env\<close>. In \<open>restart_env\<close> moreover the
  closure 1 clears \<open>shutting_down\<close>.
\<close>

definition user_env :: "timestamp \<Rightarrow> nat env" where
  "user_env nxt = (quiet_env nxt)\<lparr>get_current_thread := (\<lambda>c s. Some 42)\<rparr>"

definition restart_env :: "timestamp \<Rightarrow> nat env" where
  "restart_env nxt =
     (user_env nxt)\<lparr>apply_thunk := (\<lambda>t s. if t = 1 then s\<lparr>shutting_down := False\<rparr> else s)\<rparr>"

text \<open>An event that belongs neither to the choice of a thread nor to a pause.\<close>

definition halting_event :: "event \<Rightarrow> bool" where
  "halting_event e = (\<not> thread_event e \<and> \<not> pause_event e)"




text \<open>
  The spec's description of the pull (4.E, Phase 3 and 4.G). The CPUs are looked at in
  the order \<open>self + 1, ..., n - 1, 0, ..., self - 1\<close>. A pull over a list of
  candidate CPUs with thread queues \<open>qs\<close> calls \<open>dequeue\<close> on one candidate after the
  other until a call yields a thread: \<open>pull_calls\<close> are these calls,
  \<open>pull_result\<close> is the CPU that yielded and the thread.
\<close>

definition scan_order :: "nat \<Rightarrow> nat \<Rightarrow> nat list" where
  "scan_order self n = [self + 1..<n] @ [0..<self]"

fun pull_calls :: "nat list \<Rightarrow> (nat \<Rightarrow> thunk list) \<Rightarrow> event list" where
  "pull_calls [] qs = []"
| "pull_calls (c # cs) qs =
     (case qs c of
        [] \<Rightarrow> EvDequeue (TQ c) None # pull_calls cs qs
      | x # r \<Rightarrow> [EvDequeue (TQ c) (Some x)])"

fun pull_result :: "nat list \<Rightarrow> (nat \<Rightarrow> thunk list) \<Rightarrow> (nat \<times> thunk) option" where
  "pull_result [] qs = None"
| "pull_result (c # cs) qs =
     (case qs c of
        [] \<Rightarrow> pull_result cs qs
      | x # r \<Rightarrow> Some (c, x))"

text \<open>The calls of \<open>dequeue\<close> in a trace.\<close>

fun is_dequeue :: "event \<Rightarrow> bool" where
  "is_dequeue (EvDequeue q r) = True"
| "is_dequeue e = False"

definition dequeue_calls :: "event list \<Rightarrow> event list" where
  "dequeue_calls tr = filter is_dequeue tr"

text \<open>The table of CPUs after one thread was taken from the head of a queue.\<close>

definition taken_from :: "(nat \<times> thunk) option \<Rightarrow> (nat \<Rightarrow> cpuinfo) \<Rightarrow> nat \<Rightarrow> cpuinfo" where
  "taken_from r cpus =
     (case r of
        None \<Rightarrow> cpus
      | Some (c, x) \<Rightarrow> cpus(c := (cpus c)\<lparr>thread_queue := tl (thread_queue (cpus c))\<rparr>))"

text \<open>
  The CPUs the loop of lines 231 to 244 visits when it stands at \<open>cpu\<close>, given that it
  finds no thread.
\<close>

definition busy_visit :: "nat \<Rightarrow> nat \<Rightarrow> nat \<Rightarrow> nat list" where
  "busy_visit self n cpu =
     (if (if cpu = n then 0 else cpu) \<le> self then [(if cpu = n then 0 else cpu)..<self]
      else [cpu..<n] @ [0..<self])"

text \<open>
  The pull as the spec has it, for CPU \<open>self\<close> in state \<open>s\<close> with idle mask \<open>b\<close>:
  first the CPUs marked idle, in scan order; only if none of them yields a thread, the
  CPUs in state \<open>cpu_user\<close>, in the same order. \<open>pull_choice\<close> is the CPU stolen from
  and the thread, \<open>pull_trace\<close> the calls of \<open>dequeue\<close> on other CPUs' queues.
\<close>

definition idle_candidates :: "bitmap \<Rightarrow> nat \<Rightarrow> 'x sched \<Rightarrow> nat list" where
  "idle_candidates b self s = filter b (scan_order self (total_processors s))"

definition busy_candidates :: "nat \<Rightarrow> 'x sched \<Rightarrow> nat list" where
  "busy_candidates self s =
     filter (\<lambda>c. state (cpuinfo_from_id s c) = cpu_user) (scan_order self (total_processors s))"

definition pull_choice :: "bitmap \<Rightarrow> nat \<Rightarrow> 'x sched \<Rightarrow> (nat \<times> thunk) option" where
  "pull_choice b self s =
     (if pull_result (idle_candidates b self s) (\<lambda>c. thread_queue (cpuinfo_from_id s c)) = None
      then pull_result (busy_candidates self s) (\<lambda>c. thread_queue (cpuinfo_from_id s c))
      else pull_result (idle_candidates b self s) (\<lambda>c. thread_queue (cpuinfo_from_id s c)))"

definition pull_trace :: "bitmap \<Rightarrow> nat \<Rightarrow> 'x sched \<Rightarrow> event list" where
  "pull_trace b self s =
     pull_calls (idle_candidates b self s) (\<lambda>c. thread_queue (cpuinfo_from_id s c))
     @ (if pull_result (idle_candidates b self s) (\<lambda>c. thread_queue (cpuinfo_from_id s c)) = None
        then pull_calls (busy_candidates self s) (\<lambda>c. thread_queue (cpuinfo_from_id s c))
        else [])"

text \<open>
  Three CPUs seen from CPU 1, which has nothing queued: CPU 2 is idle with an empty
  queue, CPU 0 runs a user thread and has one more queued.
\<close>

definition steal_demo :: "nat sched" where
  "steal_demo =
     queues_sched 3 (\<lambda>c. if c = 0 then [9] else [])
       (\<lambda>c. if c = 0 then cpu_user else if c = 1 then cpu_kernel else cpu_idle) (\<lambda>c. c = 2)"

text \<open>
  The closures a trace applies, in order: the pause closures that
  \<open>sched_thread_pause\<close> applies and the tasks handed to \<open>run_thunk\<close>;
  \<open>paused\<close> are the former alone.
\<close>

fun applied_closure :: "event \<Rightarrow> thunk list" where
  "applied_closure (EvPause p) = [p]"
| "applied_closure (EvRun t) = [t]"
| "applied_closure e = []"

fun pause_thunk :: "event \<Rightarrow> thunk list" where
  "pause_thunk (EvPause p) = [p]"
| "pause_thunk e = []"

definition applications :: "event list \<Rightarrow> thunk list" where
  "applications tr = concat (map applied_closure tr)"

definition paused :: "event list \<Rightarrow> thunk list" where
  "paused tr = concat (map pause_thunk tr)"

text \<open>
  A log of the closures applied. \<open>lg\<close> reads a list from \<open>ext\<close>, the part of the
  state the scheduler itself never writes; it is a log for the environment \<open>E\<close> when
  every application of a closure adds that closure at its end and nothing else the
  environment does changes it.
\<close>

definition observes :: "'x env \<Rightarrow> ('x \<Rightarrow> thunk list) \<Rightarrow> bool" where
  "observes E lg =
     ((\<forall>t s. lg (ext (apply_thunk E t s)) = lg (ext s) @ [t])
      \<and> (\<forall>n s. lg (ext (timer_service E n s)) = lg (ext s))
      \<and> (\<forall>s. lg (ext (mm_service E s)) = lg (ext s))
      \<and> (\<forall>x. lg (snd (now E x)) = lg x)
      \<and> (\<forall>x. lg (snd (timer_check E x)) = lg x)
      \<and> (\<forall>d x. lg (runloop_timer E d x) = lg x))"

text \<open>The threads queued on the CPUs below \<open>n\<close>, with multiplicity.\<close>

definition queued_threads :: "nat \<Rightarrow> 'x sched \<Rightarrow> thunk multiset" where
  "queued_threads n s = sum (\<lambda>c. mset (thread_queue (cpuinfo_from_id s c))) {..<n}"

text \<open>
  An environment that keeps such a log next to its clock: applying a closure writes it
  to the log and does nothing else, every CPU has a current thread, whose pause closure
  is 42, and the rest is as in \<open>quiet_env\<close>. \<open>logged s\<close> is the state \<open>s\<close> with an
  empty log.
\<close>

definition logging_env :: "timestamp \<Rightarrow> (nat \<times> thunk list) env" where
  "logging_env nxt =
     \<lparr>apply_thunk = (\<lambda>t s. s\<lparr>ext := (fst (ext s), snd (ext s) @ [t])\<rparr>),
      get_current_thread = (\<lambda>c s. Some 42),
      timer_service = (\<lambda>t s. s),
      mm_service = (\<lambda>s. s),
      wait_for_interrupt = (\<lambda>s. s),
      now = (\<lambda>x. (of_nat (fst x), (Suc (fst x), snd x))),
      timer_check = (\<lambda>x. (nxt, x)),
      runloop_timer = (\<lambda>t x. x)\<rparr>"

definition logged :: "nat sched \<Rightarrow> (nat \<times> thunk list) sched" where
  "logged s =
     \<lparr>runqueue = runqueue s, bhqueue = bhqueue s, idle_cpu_mask = idle_cpu_mask s,
      last_timer_update = last_timer_update s, runloop_timer_min = runloop_timer_min s,
      runloop_timer_max = runloop_timer_max s, kernel_lock = kernel_lock s,
      shutting_down = shutting_down s, total_processors = total_processors s,
      cpuinfo_from_id = cpuinfo_from_id s, ext = (ext s, [])\<rparr>"

text \<open>
  The configuration \<open>push_demo\<close> with two bottom halves and one task on \<open>runqueue\<close>.
\<close>

definition mixed_demo :: "nat sched" where
  "mixed_demo = push_demo\<lparr>bhqueue := [1, 2], runqueue := [3]\<rparr>"

section \<open>Properties\<close>

subsection \<open>Arithmetic of signed and unsigned 64-bit values\<close>

lemma sint_u64: "sint (w::u64) = (if uint w < 2^63 then uint w else uint w - 2^64)"
proof -
  have b: "0 \<le> uint w" "uint w < 2^64"
    using uint_lt2p [of w] by simp_all
  have s: "sint w = (uint w + 2^63) mod 2^64 - 2^63"
    by (simp add: sint_uint signed_take_bit_eq_take_bit_shift take_bit_eq_mod)
  show ?thesis
  proof (cases "uint w < 2^63")
    case True
    then have "(uint w + 2^63) mod 2^64 = uint w + 2^63"
      using b by (intro mod_pos_pos_trivial) simp_all
    with s True show ?thesis by simp
  next
    case False
    then have "(uint w + 2^63) mod 2^64 = uint w + 2^63 - 2^64"
      using b by (intro int_mod_pos_eq [where q = 1]) simp_all
    with s False show ?thesis by simp
  qed
qed

lemma sless_nonneg_less:
  fixes a b :: u64
  assumes "0 \<le> sint a" and "sint a < sint b"
  shows "a < b"
  using assms uint_lt2p [of a] uint_lt2p [of b]
  by (simp add: sint_u64 word_less_def split: if_splits)

subsection \<open>The platform timer\<close>

lemma update_timer_skip:
  assumes "timer_check E (ext s) = (nxt, x1)"
    and "last_timer_update s \<noteq> 0" and "nxt = last_timer_update s"
  shows "update_timer E self s = (False, s\<lparr>ext := x1\<rparr>, [])"
  using assms by (simp add: update_timer_def)

lemma update_timer_program:
  assumes "timer_check E (ext s) = (nxt, x1)"
    and "last_timer_update s = 0 \<or> nxt \<noteq> last_timer_update s"
    and "now E x1 = (nw, x2)"
    and "timeout = timer_timeout (runloop_timer_min s) (runloop_timer_max s) (nxt - nw)"
  shows "update_timer E self s =
    (True,
     (set_cpu_timer self (nxt + timeout - (nxt - nw))
        (s\<lparr>last_timer_update := nxt + timeout - (nxt - nw)\<rparr>))
       \<lparr>ext := runloop_timer E timeout x2\<rparr>,
     [EvNow nw, EvRunloopTimer timeout])"
  using assms by (auto simp: update_timer_def Let_def)

text \<open>
  C3, as the code has it. \<open>update_timer\<close> returns false and does not call
  \<open>runloop_timer\<close> if and only if the global \<open>last_timer_update\<close> is not zero and
  the next deadline of the heap equals it. In every other case, so also when both are
  zero, it calls \<open>runloop_timer\<close> once and returns true.
\<close>

theorem update_timer_skips_iff:
  assumes "timer_check E (ext s) = (nxt, x1)"
  shows "(\<not> fst (update_timer E self s) \<and> timer_calls (snd (snd (update_timer E self s))) = [])
           = (last_timer_update s \<noteq> 0 \<and> nxt = last_timer_update s)
       \<and> (\<not> (last_timer_update s \<noteq> 0 \<and> nxt = last_timer_update s) \<longrightarrow>
            fst (update_timer E self s)
            \<and> length (timer_calls (snd (snd (update_timer E self s)))) = 1)"
proof (cases "last_timer_update s \<noteq> 0 \<and> nxt = last_timer_update s")
  case True
  then show ?thesis
    using update_timer_skip [OF assms, of self] by simp
next
  case False
  obtain nw x2 where n: "now E x1 = (nw, x2)"
    by (cases "now E x1")
  from False have "last_timer_update s = 0 \<or> nxt \<noteq> last_timer_update s"
    by blast
  from update_timer_program [OF assms this n refl, of self] False show ?thesis
    by simp
qed

theorem update_timer_skips_iff_witness:
  "\<not> fst (update_timer (quiet_env 50) 0 (plain_sched 2 1 100 50 10))
   \<and> timer_calls (snd (snd (update_timer (quiet_env 50) 0 (plain_sched 2 1 100 50 10)))) = []
   \<and> fst (update_timer (quiet_env 50) 0 (plain_sched 2 1 100 7 10))
   \<and> length (timer_calls (snd (snd (update_timer (quiet_env 50) 0 (plain_sched 2 1 100 7 10))))) = 1"
proof -
  have c: "timer_check (quiet_env 50) (ext (plain_sched 2 1 100 50 10)) = (50, 10)"
    by (simp add: quiet_env_def plain_sched_def)
  have d: "timer_check (quiet_env 50) (ext (plain_sched 2 1 100 7 10)) = (50, 10)"
    by (simp add: quiet_env_def plain_sched_def)
  have l: "last_timer_update (plain_sched 2 1 100 50 10) = 50"
    "last_timer_update (plain_sched 2 1 100 7 10) = 7"
    by (simp_all add: plain_sched_def)
  from update_timer_skips_iff [OF c, of 0] update_timer_skips_iff [OF d, of 0] l
  show ?thesis by simp
qed

text \<open>
  The claim as stated fails where nothing was programmed yet: with
  \<open>last_timer_update = 0\<close> and a next deadline of 0 the two are equal, and
  \<open>update_timer\<close> programs the timer and returns true.
\<close>

theorem update_timer_equal_zero_counterexample:
  "fst (timer_check (quiet_env 0) (ext (plain_sched 2 1 100 0 10)))
     = last_timer_update (plain_sched 2 1 100 0 10)
   \<and> fst (update_timer (quiet_env 0) 0 (plain_sched 2 1 100 0 10))
   \<and> timer_calls (snd (snd (update_timer (quiet_env 0) 0 (plain_sched 2 1 100 0 10)))) = [1]"
  by (simp add: update_timer_def quiet_env_def plain_sched_def timer_timeout_def Let_def)

lemma timer_timeout_bounds:
  assumes "tmin \<le> tmax" and "0 \<le> sint tmin"
  shows "tmin \<le> timer_timeout tmin tmax delta" and "timer_timeout tmin tmax delta \<le> tmax"
  using assms unfolding timer_timeout_def
  by (auto dest: sless_nonneg_less)

text \<open>
  C5, as the code has it. When \<open>update_timer\<close> programs the timer, the timeout it
  passes is \<open>runloop_timer_min\<close> when the signed \<open>delta = next - now\<close> is at most
  \<open>(s64)runloop_timer_min\<close>, and the smaller of \<open>delta\<close> and \<open>runloop_timer_max\<close>
  (as unsigned values) otherwise. When \<open>runloop_timer_min \<le> runloop_timer_max\<close> and
  \<open>runloop_timer_min\<close> is not negative as an s64 (it is below \<open>2^63\<close>), the timeout
  lies between the two bounds, whatever the sign of \<open>delta\<close>.
\<close>

theorem update_timer_timeout:
  assumes "timer_check E (ext s) = (nxt, x1)" and "now E x1 = (nw, x2)"
    and "fst (update_timer E self s)"
  shows "\<exists>timeout.
     timer_calls (snd (snd (update_timer E self s))) = [timeout]
     \<and> timeout = (if sint (nxt - nw) \<le> sint (runloop_timer_min s) then runloop_timer_min s
                  else min (nxt - nw) (runloop_timer_max s))
     \<and> (runloop_timer_min s \<le> runloop_timer_max s \<and> 0 \<le> sint (runloop_timer_min s) \<longrightarrow>
          runloop_timer_min s \<le> timeout \<and> timeout \<le> runloop_timer_max s)"
proof -
  have p: "last_timer_update s = 0 \<or> nxt \<noteq> last_timer_update s"
    using assms(3) update_timer_skip [OF assms(1), of self] by auto
  have "timer_timeout (runloop_timer_min s) (runloop_timer_max s) (nxt - nw)
      = (if sint (nxt - nw) \<le> sint (runloop_timer_min s) then runloop_timer_min s
         else min (nxt - nw) (runloop_timer_max s))"
    by (auto simp: timer_timeout_def min_def)
  then show ?thesis
    using update_timer_program [OF assms(1) p assms(2) refl, of self]
      timer_timeout_bounds [of "runloop_timer_min s" "runloop_timer_max s" "nxt - nw"]
    by simp
qed

theorem update_timer_timeout_witness:
  "(20 :: u64) \<le> 100 \<and> 0 \<le> sint (20 :: u64) \<and> sint (5 - 10 :: u64) < 0
   \<and> timer_calls (snd (snd (update_timer (quiet_env 5) 0 (plain_sched 2 20 100 0 10)))) = [20]"
proof -
  have c: "timer_check (quiet_env 5) (ext (plain_sched 2 20 100 0 10)) = (5, 10)"
    by (simp add: quiet_env_def plain_sched_def)
  have n: "now (quiet_env 5) 10 = (10, 11)"
    by (simp add: quiet_env_def)
  have f: "fst (update_timer (quiet_env 5) 0 (plain_sched 2 20 100 0 10))"
    by (simp add: update_timer_def quiet_env_def plain_sched_def Let_def)
  from update_timer_timeout [OF c n f] show ?thesis
    by (auto simp: plain_sched_def)
qed

text \<open>
  The claim as stated fails for a \<open>runloop_timer_min\<close> that is negative as an s64:
  with \<open>runloop_timer_min = 2^63\<close>, \<open>runloop_timer_max = 2^64 - 1\<close> and a deadline
  equal to the clock, \<open>delta = 0\<close> is above \<open>(s64)runloop_timer_min\<close> and the timer is
  programmed with 0, below \<open>runloop_timer_min\<close>.
\<close>

theorem update_timer_timeout_counterexample:
  "runloop_timer_min (plain_sched 2 0x8000000000000000 0xFFFFFFFFFFFFFFFF 0 10)
     \<le> runloop_timer_max (plain_sched 2 0x8000000000000000 0xFFFFFFFFFFFFFFFF 0 10)
   \<and> timer_calls (snd (snd (update_timer (quiet_env 10) 0
         (plain_sched 2 0x8000000000000000 0xFFFFFFFFFFFFFFFF 0 10)))) = [0]
   \<and> \<not> runloop_timer_min (plain_sched 2 0x8000000000000000 0xFFFFFFFFFFFFFFFF 0 10) \<le> 0"
  by (simp add: update_timer_def quiet_env_def plain_sched_def timer_timeout_def Let_def)

subsection \<open>The timer of a CPU that runs a thread\<close>

lemma run_thread_found:
  assumes "1 < total_processors s"
  shows "run_thread E self False (Some x) s
     = (run_thunk E x (fst (thread_timer E self s)), snd (thread_timer E self s) @ [EvRun x])"
  using assms by (simp add: run_thread_def split_beta)

lemma thread_timer_keep:
  assumes "now E (ext s) = (here, x1)"
    and "\<not> (sint (cpu_last_timer_update (cpuinfo_from_id s self) - here) < 0
           \<or> runloop_timer_max s < cpu_last_timer_update (cpuinfo_from_id s self) - here)"
  shows "thread_timer E self s = (s\<lparr>ext := x1\<rparr>, [EvNow here])"
  using assms by (simp add: thread_timer_def)

lemma thread_timer_set:
  assumes "now E (ext s) = (here, x1)"
    and "sint (cpu_last_timer_update (cpuinfo_from_id s self) - here) < 0
           \<or> runloop_timer_max s < cpu_last_timer_update (cpuinfo_from_id s self) - here"
  shows "thread_timer E self s =
     (set_cpu_timer self (here + runloop_timer_max s)
        (s\<lparr>ext := runloop_timer E (runloop_timer_max s) x1\<rparr>),
      [EvNow here, EvRunloopTimer (runloop_timer_max s)])"
  using assms by (auto simp: thread_timer_def)

text \<open>
  C8, as the code has it. When a thread \<open>x\<close> was found, \<open>timer_updated\<close> is false and
  there is more than one CPU, \<open>run_thunk\<close> is applied to the state \<open>s'\<close> that the look
  at this CPU's timer leaves. There, with \<open>here\<close> the clock as read, the recorded
  deadline \<open>ci->last_timer_update\<close> is at most \<open>runloop_timer_max\<close> ahead: the 64-bit
  unsigned difference \<open>ci->last_timer_update - here\<close> is at most \<open>runloop_timer_max\<close>.
  The lower bound \<open>0 \<le> ci->last_timer_update - here\<close>, read as the code reads the
  difference, as an s64, holds when \<open>runloop_timer_max\<close> is itself not negative as an
  s64, that is below \<open>2^63\<close>; without that it can fail, as the example after the
  theorem shows. \<open>runloop_timer(runloop_timer_max)\<close> is called exactly when the
  deadline recorded before was in the past (the s64 difference is negative) or more than
  \<open>runloop_timer_max\<close> ahead.
\<close>

theorem thread_timer_deadline:
  assumes "now E (ext s) = (here, x1)" and "1 < total_processors s"
    and "thread_timer E self s = (s', tr)"
  shows "run_thread E self False (Some x) s = (run_thunk E x s', tr @ [EvRun x])
    \<and> cpu_last_timer_update (cpuinfo_from_id s' self) - here \<le> runloop_timer_max s'
    \<and> (0 \<le> sint (runloop_timer_max s') \<longrightarrow>
          0 \<le> sint (cpu_last_timer_update (cpuinfo_from_id s' self) - here))
    \<and> timer_calls tr =
        (if sint (cpu_last_timer_update (cpuinfo_from_id s self) - here) < 0
            \<or> runloop_timer_max s < cpu_last_timer_update (cpuinfo_from_id s self) - here
         then [runloop_timer_max s] else [])"
proof (cases "sint (cpu_last_timer_update (cpuinfo_from_id s self) - here) < 0
           \<or> runloop_timer_max s < cpu_last_timer_update (cpuinfo_from_id s self) - here")
  case True
  from thread_timer_set [OF assms(1) True] assms(3) True
    run_thread_found [OF assms(2), of E self x]
  show ?thesis
    by (auto simp: set_cpu_timer_def)
next
  case False
  from thread_timer_keep [OF assms(1) False] assms(3) False
    run_thread_found [OF assms(2), of E self x]
  show ?thesis
    by (auto simp: not_less)
qed

theorem thread_timer_deadline_witness:
  "1 < total_processors (plain_sched 2 1 100 0 10)
   \<and> 0 \<le> sint (runloop_timer_max (plain_sched 2 1 100 0 10))
   \<and> sint (cpu_last_timer_update (cpuinfo_from_id (plain_sched 2 1 100 0 10) 0) - 10) < 0
   \<and> timer_calls (snd (thread_timer (quiet_env 0) 0 (plain_sched 2 1 100 0 10))) = [100]
   \<and> cpu_last_timer_update
        (cpuinfo_from_id (fst (thread_timer (quiet_env 0) 0 (plain_sched 2 1 100 0 10))) 0) - 10
      \<le> 100"
proof -
  have n: "now (quiet_env 0) (ext (plain_sched 2 1 100 0 10)) = (10, 11)"
    by (simp add: quiet_env_def plain_sched_def)
  have t: "1 < total_processors (plain_sched 2 1 100 0 10)"
    by (simp add: plain_sched_def)
  have p: "thread_timer (quiet_env 0) 0 (plain_sched 2 1 100 0 10)
      = (fst (thread_timer (quiet_env 0) 0 (plain_sched 2 1 100 0 10)),
         snd (thread_timer (quiet_env 0) 0 (plain_sched 2 1 100 0 10)))"
    by simp
  have m: "runloop_timer_max (fst (thread_timer (quiet_env 0) 0 (plain_sched 2 1 100 0 10))) = 100"
    by (simp add: thread_timer_def quiet_env_def plain_sched_def set_cpu_timer_def fresh_cpu_def)
  from thread_timer_deadline [OF n t p, of 7] m show ?thesis
    by (simp add: plain_sched_def fresh_cpu_def)
qed

text \<open>
  The lower bound of C8 without the proviso: two CPUs, \<open>runloop_timer_max = 2^63\<close>, the
  clock at 10 and the deadline 0 of CPU 0 in the past. The timer is programmed for
  \<open>runloop_timer_max\<close> and the deadline recorded is \<open>10 + 2^63\<close>; thread 7 is run in
  that state, where \<open>ci->last_timer_update - here\<close> is \<open>2^63\<close>, as an s64 the negative
  number \<open>- 2^63\<close>.
\<close>

theorem thread_timer_deadline_counterexample:
  "1 < total_processors (plain_sched 2 1 0x8000000000000000 0 10)
   \<and> now (quiet_env 0) (ext (plain_sched 2 1 0x8000000000000000 0 10)) = (10, 11)
   \<and> run_thread (quiet_env 0) 0 False (Some 7) (plain_sched 2 1 0x8000000000000000 0 10)
       = (run_thunk (quiet_env 0) 7
            (fst (thread_timer (quiet_env 0) 0 (plain_sched 2 1 0x8000000000000000 0 10))),
          [EvNow 10, EvRunloopTimer 0x8000000000000000, EvRun 7])
   \<and> cpu_last_timer_update (cpuinfo_from_id
          (fst (thread_timer (quiet_env 0) 0 (plain_sched 2 1 0x8000000000000000 0 10))) 0) - 10
       = 0x8000000000000000
   \<and> \<not> 0 \<le> sint (cpu_last_timer_update (cpuinfo_from_id
          (fst (thread_timer (quiet_env 0) 0 (plain_sched 2 1 0x8000000000000000 0 10))) 0) - 10)"
  by (simp add: run_thread_def thread_timer_def quiet_env_def plain_sched_def fresh_cpu_def
      set_cpu_timer_def run_thunk_def Let_def)

subsection \<open>Going to sleep\<close>

lemma kernel_sleep_enter_state:
  "state (cpuinfo_from_id (kernel_sleep_enter self s) self) = cpu_idle"
  by (simp add: kernel_sleep_enter_def set_cpu_state_def Let_def split: option.splits)

lemma kernel_sleep_enter_cases:
  "kernel_sleep_enter self s =
     (case idle_cpu_mask s of
        None \<Rightarrow> set_cpu_state self cpu_idle s
      | Some b \<Rightarrow> (set_cpu_state self cpu_idle s)\<lparr>idle_cpu_mask := Some (b(self := True))\<rparr>)"
  by (simp add: kernel_sleep_enter_def set_cpu_state_def Let_def bitmap_set_atomic_def
      split: option.splits)

lemma kernel_sleep_round:
  "kernel_sleep E self s !! Suc n = wait_for_interrupt E (kernel_sleep E self s !! n)"
  by (simp only: kernel_sleep_def snth_siterate funpow.simps o_apply)

lemma kernel_sleep_marked:
  assumes "\<And>s. idle_marked self s \<Longrightarrow> idle_marked self (wait_for_interrupt E s)"
    and "idle_cpu_mask s \<noteq> None"
  shows "idle_marked self (kernel_sleep E self s !! n)"
proof (induction n)
  case 0
  from assms(2) show ?case
    by (auto simp: kernel_sleep_def idle_marked_def kernel_sleep_enter_cases)
next
  case (Suc n)
  then show ?case by (simp only: kernel_sleep_round assms(1))
qed

text \<open>
  C10. \<open>kernel_sleep\<close> never returns: it is a run without end, with a state at every
  round \<open>n\<close> of its loop. The run starts in the state of the call with the state of the
  calling CPU set to \<open>cpu_idle\<close> and, only when \<open>idle_cpu_mask\<close> is not null, bit
  \<open>ci->id\<close> of the mask set; with a null mask nothing else has changed, the mask is
  still null and nothing was dereferenced. Each further state of the run is the one
  before it after one \<open>wait_for_interrupt\<close>: \<open>kernel_sleep\<close> does nothing but wait,
  so it never clears the bit itself, and the bit stays set for as long as the interrupts
  taken leave it set.
\<close>

theorem kernel_sleep_idle_forever:
  "shd (kernel_sleep E self s)
     = (case idle_cpu_mask s of
          None \<Rightarrow> set_cpu_state self cpu_idle s
        | Some b \<Rightarrow> (set_cpu_state self cpu_idle s)\<lparr>idle_cpu_mask := Some (b(self := True))\<rparr>)
   \<and> state (cpuinfo_from_id (shd (kernel_sleep E self s)) self) = cpu_idle
   \<and> (idle_cpu_mask s = None \<longrightarrow> idle_cpu_mask (shd (kernel_sleep E self s)) = None)
   \<and> (idle_cpu_mask s \<noteq> None \<longrightarrow> idle_marked self (shd (kernel_sleep E self s)))
   \<and> (\<forall>n. kernel_sleep E self s !! Suc n = wait_for_interrupt E (kernel_sleep E self s !! n))
   \<and> ((\<forall>s'. idle_marked self s' \<longrightarrow> idle_marked self (wait_for_interrupt E s'))
        \<and> idle_cpu_mask s \<noteq> None \<longrightarrow> (\<forall>n. idle_marked self (kernel_sleep E self s !! n)))"
proof -
  have h: "shd (kernel_sleep E self s) = kernel_sleep_enter self s"
    by (simp add: kernel_sleep_def)
  have a: "shd (kernel_sleep E self s)
     = (case idle_cpu_mask s of
          None \<Rightarrow> set_cpu_state self cpu_idle s
        | Some b \<Rightarrow> (set_cpu_state self cpu_idle s)\<lparr>idle_cpu_mask := Some (b(self := True))\<rparr>)"
    by (simp only: h kernel_sleep_enter_cases)
  have b: "state (cpuinfo_from_id (shd (kernel_sleep E self s)) self) = cpu_idle"
    by (simp only: h kernel_sleep_enter_state)
  have c: "idle_cpu_mask s = None \<longrightarrow> idle_cpu_mask (shd (kernel_sleep E self s)) = None"
    by (simp add: h kernel_sleep_enter_cases set_cpu_state_def)
  have d: "idle_cpu_mask s \<noteq> None \<longrightarrow> idle_marked self (shd (kernel_sleep E self s))"
    by (auto simp: h kernel_sleep_enter_cases idle_marked_def)
  have e: "\<forall>n. kernel_sleep E self s !! Suc n = wait_for_interrupt E (kernel_sleep E self s !! n)"
    by (simp only: kernel_sleep_round) simp
  have f: "(\<forall>s'. idle_marked self s' \<longrightarrow> idle_marked self (wait_for_interrupt E s'))
        \<and> idle_cpu_mask s \<noteq> None \<longrightarrow> (\<forall>n. idle_marked self (kernel_sleep E self s !! n))"
    using kernel_sleep_marked [of self E s] by blast
  from a b c d e f show ?thesis
    by (intro conjI)
qed

theorem kernel_sleep_idle_forever_witness:
  "idle_cpu_mask early_sched = None
   \<and> shd (kernel_sleep (quiet_env 0) 1 early_sched) = set_cpu_state 1 cpu_idle early_sched
   \<and> idle_cpu_mask (shd (kernel_sleep (quiet_env 0) 1 early_sched)) = None
   \<and> state (cpuinfo_from_id (shd (kernel_sleep (quiet_env 0) 1 early_sched)) 1) = cpu_idle
   \<and> idle_cpu_mask (plain_sched 2 1 100 0 10) \<noteq> None
   \<and> state (cpuinfo_from_id (shd (kernel_sleep (quiet_env 0) 1 (plain_sched 2 1 100 0 10))) 1)
        = cpu_idle
   \<and> idle_marked 1 (shd (kernel_sleep (quiet_env 0) 1 (plain_sched 2 1 100 0 10)))
   \<and> idle_marked 1 (kernel_sleep (quiet_env 0) 1 (plain_sched 2 1 100 0 10) !! 3)
   \<and> kernel_sleep (quiet_env 0) 1 (plain_sched 2 1 100 0 10) !! 3
        = wait_for_interrupt (quiet_env 0) (kernel_sleep (quiet_env 0) 1 (plain_sched 2 1 100 0 10) !! 2)"
proof -
  have e: "idle_cpu_mask early_sched = None"
    by (simp add: early_sched_def)
  have a: "idle_cpu_mask (plain_sched 2 1 100 0 10) \<noteq> None"
    by (simp add: plain_sched_def)
  have q: "\<forall>s'. idle_marked 1 s' \<longrightarrow> idle_marked 1 (wait_for_interrupt (quiet_env 0) s')"
    by (simp add: quiet_env_def)
  note p = kernel_sleep_idle_forever [of "quiet_env 0" 1 "plain_sched 2 1 100 0 10"]
  from p a q
  have m: "\<forall>n. idle_marked 1 (kernel_sleep (quiet_env 0) 1 (plain_sched 2 1 100 0 10) !! n)"
    by blast
  from m have m3: "idle_marked 1 (kernel_sleep (quiet_env 0) 1 (plain_sched 2 1 100 0 10) !! 3)"
    by blast
  from p a have m0: "idle_marked 1 (shd (kernel_sleep (quiet_env 0) 1 (plain_sched 2 1 100 0 10)))"
    by blast
  from p have i1: "state (cpuinfo_from_id (shd (kernel_sleep (quiet_env 0) 1 (plain_sched 2 1 100 0 10))) 1)
        = cpu_idle"
    by blast
  from p have "\<forall>n. kernel_sleep (quiet_env 0) 1 (plain_sched 2 1 100 0 10) !! Suc n
        = wait_for_interrupt (quiet_env 0) (kernel_sleep (quiet_env 0) 1 (plain_sched 2 1 100 0 10) !! n)"
    by blast
  then have "kernel_sleep (quiet_env 0) 1 (plain_sched 2 1 100 0 10) !! Suc 2
        = wait_for_interrupt (quiet_env 0) (kernel_sleep (quiet_env 0) 1 (plain_sched 2 1 100 0 10) !! 2)"
    by blast
  then have r: "kernel_sleep (quiet_env 0) 1 (plain_sched 2 1 100 0 10) !! 3
        = wait_for_interrupt (quiet_env 0) (kernel_sleep (quiet_env 0) 1 (plain_sched 2 1 100 0 10) !! 2)"
    by (simp only: eval_nat_numeral)
  note k = kernel_sleep_idle_forever [of "quiet_env 0" 1 early_sched]
  from k e have h: "shd (kernel_sleep (quiet_env 0) 1 early_sched) = set_cpu_state 1 cpu_idle early_sched"
    by simp
  from k e have n: "idle_cpu_mask (shd (kernel_sleep (quiet_env 0) 1 early_sched)) = None"
    by blast
  from k have i: "state (cpuinfo_from_id (shd (kernel_sleep (quiet_env 0) 1 early_sched)) 1) = cpu_idle"
    by blast
  from e h n i a i1 m0 m3 r show ?thesis
    by (intro conjI)
qed

subsection \<open>Scanning the idle mask\<close>

lemma le_split: "(start \<le> i) = (i = start \<or> Suc start \<le> (i::nat))"
  by arith

lemma range_first_None:
  "bitmap_range_get_first b start n = None \<longleftrightarrow> (\<forall>i. start \<le> i \<and> i < start + n \<longrightarrow> \<not> b i)"
proof (induction n arbitrary: start)
  case 0
  then show ?case by auto
next
  case (Suc n)
  have "(\<forall>i. start \<le> i \<and> i < start + Suc n \<longrightarrow> \<not> b i)
      \<longleftrightarrow> \<not> b start \<and> (\<forall>i. Suc start \<le> i \<and> i < Suc start + n \<longrightarrow> \<not> b i)"
    by (subst le_split) auto
  with Suc [of "Suc start"] show ?case by simp
qed

lemma range_first_Some:
  "bitmap_range_get_first b start n = Some c \<Longrightarrow>
     start \<le> c \<and> c < start + n \<and> b c \<and> (\<forall>i. start \<le> i \<and> i < c \<longrightarrow> \<not> b i)"
proof (induction n arbitrary: start)
  case 0
  then show ?case by simp
next
  case (Suc n)
  show ?case
  proof (cases "b start")
    case True
    with Suc.prems show ?thesis by auto
  next
    case False
    with Suc.prems have "bitmap_range_get_first b (Suc start) n = Some c" by simp
    from Suc.IH [OF this] have i: "Suc start \<le> c" "c < Suc start + n" "b c"
      "\<forall>i. Suc start \<le> i \<and> i < c \<longrightarrow> \<not> b i" by blast+
    have "\<forall>i. start \<le> i \<and> i < c \<longrightarrow> \<not> b i"
      using i(4) False by (subst le_split) auto
    with i show ?thesis by simp
  qed
qed

lemma filter_range_first:
  "start + n = hi \<Longrightarrow>
   filter b [start..<hi] =
     (case bitmap_range_get_first b start n of
        None \<Rightarrow> []
      | Some c \<Rightarrow> c # filter b [Suc c..<hi])"
proof (induction n arbitrary: start)
  case 0
  then show ?case by simp
next
  case (Suc n)
  from Suc.prems have u: "[start..<hi] = start # [Suc start..<hi]"
    by (simp add: upt_conv_Cons)
  from Suc.prems have "Suc start + n = hi" by simp
  from Suc.IH [OF this] show ?case
    by (simp add: u)
qed

lemma filter_upt_cong:
  "(\<And>i. lo \<le> i \<Longrightarrow> b' i = b i) \<Longrightarrow> filter b' [lo..<hi] = filter b [lo..<hi]"
  by (rule filter_cong) auto

subsection \<open>One idle CPU\<close>

lemma wakeup_cpu_Some:
  "idle_cpu_mask s = Some b \<Longrightarrow> wakeup_cpu cpu s = Inr (clear_idle b cpu s, wakeup_events b cpu)"
  by (simp add: wakeup_cpu_def bitmap_test_and_set_atomic_def clear_idle_def wakeup_events_def)

lemma to_self_step_hold:
  assumes "idle_cpu_mask s = Some b"
  shows "to_self_step (Some x) cpu s =
     (if thread_queue (cpuinfo_from_id s cpu) \<noteq> []
      then Inr (Some x, clear_idle b cpu s, wakeup_events b cpu)
      else Inr (Some x, s, []))"
  using assms by (simp add: to_self_step_def queue_empty_def wakeup_cpu_Some)

lemma to_self_step_empty:
  assumes "thread_queue (cpuinfo_from_id s cpu) = []"
  shows "to_self_step None cpu s = Inr (None, s, [EvDequeue (TQ cpu) None])"
  using assms by (simp add: to_self_step_def dequeue_def)

lemma to_self_step_take:
  assumes "idle_cpu_mask s = Some b" and "thread_queue (cpuinfo_from_id s cpu) = y # r"
  shows "to_self_step None cpu s =
     (if r \<noteq> []
      then Inr (Some y, clear_idle b cpu (set_thread_queue cpu r s),
                EvDequeue (TQ cpu) (Some y) # wakeup_events b cpu)
      else Inr (Some y, set_thread_queue cpu r s, [EvDequeue (TQ cpu) (Some y)]))"
proof -
  have m: "idle_cpu_mask (set_thread_queue cpu r s) = Some b"
    using assms(1) by (simp add: set_thread_queue_def)
  have q: "thread_queue (cpuinfo_from_id (set_thread_queue cpu r s) cpu) = r"
    by (simp add: set_thread_queue_def)
  show ?thesis
    using assms(2) q by (simp add: to_self_step_def dequeue_def queue_empty_def wakeup_cpu_Some [OF m])
qed

lemma from_self_step_wake:
  assumes "idle_cpu_mask s = Some b" and "thread_queue (cpuinfo_from_id s cpu) \<noteq> []"
  shows "from_self_step self cpu s = Inr (clear_idle b cpu s, wakeup_events b cpu)"
  using assms by (simp add: from_self_step_def queue_empty_def wakeup_cpu_Some)

lemma from_self_step_none:
  assumes "thread_queue (cpuinfo_from_id s cpu) = []"
    and "thread_queue (cpuinfo_from_id s self) = []"
  shows "from_self_step self cpu s = Inr (s, [EvDequeue (TQ self) None])"
  using assms by (simp add: from_self_step_def queue_empty_def dequeue_def)

lemma from_self_step_move:
  assumes "idle_cpu_mask s = Some b" and "thread_queue (cpuinfo_from_id s cpu) = []"
    and "thread_queue (cpuinfo_from_id s self) = y # r"
  shows "from_self_step self cpu s =
     Inr (clear_idle b cpu (set_thread_queue cpu [y] (set_thread_queue self r s)),
          [EvDequeue (TQ self) (Some y), EvEnqueue (TQ cpu) y True] @ wakeup_events b cpu)"
proof -
  from assms(2,3) have ne: "cpu \<noteq> self" by auto
  have m: "idle_cpu_mask (set_thread_queue cpu [y] (set_thread_queue self r s)) = Some b"
    using assms(1) by (simp add: set_thread_queue_def)
  have q: "thread_queue (cpuinfo_from_id (set_thread_queue self r s) cpu) = []"
    using assms(2) ne by (simp add: set_thread_queue_def)
  show ?thesis
    using assms(2,3) q
    by (simp add: from_self_step_def queue_empty_def dequeue_def enqueue_def queue_capacity_def
        Let_def wakeup_cpu_Some [OF m])
qed

subsection \<open>The scans as loops over the idle CPUs\<close>

lemma to_self_step_total:
  assumes "idle_cpu_mask s = Some b"
  shows "\<exists>t' s' ev b'. to_self_step t cpu s = Inr (t', s', ev)
           \<and> idle_cpu_mask s' = Some b' \<and> (\<forall>i. i \<noteq> cpu \<longrightarrow> b' i = b i)"
proof (cases t)
  case None
  show ?thesis
  proof (cases "thread_queue (cpuinfo_from_id s cpu)")
    case Nil
    with None assms show ?thesis by (simp add: to_self_step_empty)
  next
    case (Cons y r)
    with None assms show ?thesis
      by (simp add: to_self_step_take [OF assms Cons] clear_idle_def set_thread_queue_def)
  qed
next
  case (Some x)
  with assms show ?thesis
    by (simp add: to_self_step_hold [OF assms] clear_idle_def)
qed

lemma from_self_step_total:
  assumes "idle_cpu_mask s = Some b"
  shows "\<exists>s' ev b'. from_self_step self cpu s = Inr (s', ev)
           \<and> idle_cpu_mask s' = Some b' \<and> (\<forall>i. i \<noteq> cpu \<longrightarrow> b' i = b i)"
proof (cases "thread_queue (cpuinfo_from_id s cpu)")
  case Nil
  show ?thesis
  proof (cases "thread_queue (cpuinfo_from_id s self)")
    case n: Nil
    with Nil assms show ?thesis by (simp add: from_self_step_none)
  next
    case (Cons y r)
    with Nil assms show ?thesis
      by (simp add: from_self_step_move [OF assms Nil Cons] clear_idle_def set_thread_queue_def)
  qed
next
  case (Cons y r)
  with assms show ?thesis
    by (simp add: from_self_step_wake [OF assms] clear_idle_def)
qed

lemma migrate_to_self_steps:
  "idle_cpu_mask s = Some b \<Longrightarrow>
     migrate_to_self t first_cpu ncpus s tr
       = to_self_steps t (filter b [first_cpu..<first_cpu + ncpus]) s tr"
proof (induction t first_cpu ncpus s tr arbitrary: b rule: migrate_to_self.induct)
  case (1 t first_cpu ncpus s tr)
  show ?case
  proof (cases "ncpus = 0")
    case True
    then show ?thesis by (simp add: migrate_to_self.simps)
  next
    case False
    show ?thesis
    proof (cases "bitmap_range_get_first b first_cpu ncpus")
      case None
      with False "1.prems" show ?thesis
        by (simp add: migrate_to_self.simps [of t first_cpu ncpus] filter_range_first [OF refl])
    next
      case (Some cpu)
      from range_first_Some [OF Some] have r: "first_cpu \<le> cpu" "cpu < first_cpu + ncpus"
        by simp_all
      from to_self_step_total [OF "1.prems", of t cpu]
      obtain t' s' ev b' where st: "to_self_step t cpu s = Inr (t', s', ev)"
        and m: "idle_cpu_mask s' = Some b'" and a: "\<forall>i. i \<noteq> cpu \<longrightarrow> b' i = b i"
        by blast
      have e: "cpu + 1 + (ncpus - (cpu - first_cpu + 1)) = first_cpu + ncpus"
        using r by arith
      have f: "filter b' [cpu + 1..<first_cpu + ncpus] = filter b [cpu + 1..<first_cpu + ncpus]"
        using a by (intro filter_upt_cong) simp
      from "1.IH" [OF False "1.prems" Some st refl refl m]
      have "migrate_to_self t' (cpu + 1) (ncpus - (cpu - first_cpu + 1)) s' (tr @ ev)
          = to_self_steps t' (filter b [cpu + 1..<first_cpu + ncpus]) s' (tr @ ev)"
        by (simp only: e f)
      with False "1.prems" Some st show ?thesis
        by (simp add: migrate_to_self.simps [of t first_cpu ncpus] filter_range_first [OF refl])
    qed
  qed
qed

lemma migrate_from_self_steps:
  "idle_cpu_mask s = Some b \<Longrightarrow>
     migrate_from_self self first_cpu ncpus s tr
       = from_self_steps self (filter b [first_cpu..<first_cpu + ncpus]) s tr"
proof (induction self first_cpu ncpus s tr arbitrary: b rule: migrate_from_self.induct)
  case (1 self first_cpu ncpus s tr)
  show ?case
  proof (cases "ncpus = 0")
    case True
    then show ?thesis by (simp add: migrate_from_self.simps)
  next
    case False
    show ?thesis
    proof (cases "bitmap_range_get_first b first_cpu ncpus")
      case None
      with False "1.prems" show ?thesis
        by (simp add: migrate_from_self.simps [of self first_cpu ncpus] filter_range_first [OF refl])
    next
      case (Some cpu)
      from range_first_Some [OF Some] have r: "first_cpu \<le> cpu" "cpu < first_cpu + ncpus"
        by simp_all
      from from_self_step_total [OF "1.prems", of self cpu]
      obtain s' ev b' where st: "from_self_step self cpu s = Inr (s', ev)"
        and m: "idle_cpu_mask s' = Some b'" and a: "\<forall>i. i \<noteq> cpu \<longrightarrow> b' i = b i"
        by blast
      have e: "cpu + 1 + (ncpus - (cpu - first_cpu + 1)) = first_cpu + ncpus"
        using r by arith
      have f: "filter b' [cpu + 1..<first_cpu + ncpus] = filter b [cpu + 1..<first_cpu + ncpus]"
        using a by (intro filter_upt_cong) simp
      from "1.IH" [OF False "1.prems" Some st refl m]
      have "migrate_from_self self (cpu + 1) (ncpus - (cpu - first_cpu + 1)) s' (tr @ ev)
          = from_self_steps self (filter b [cpu + 1..<first_cpu + ncpus]) s' (tr @ ev)"
        by (simp only: e f)
      with False "1.prems" Some st show ?thesis
        by (simp add: migrate_from_self.simps [of self first_cpu ncpus] filter_range_first [OF refl])
    qed
  qed
qed

text \<open>
  C7. With an allocated idle mask, each scan does the body of its loop once for every
  CPU of its range that is marked idle, in ascending order. For such a CPU,
  \<open>migrate_to_self\<close> calls \<open>dequeue\<close> on its queue only while it holds no thread,
  and calls \<open>wakeup_cpu\<close> on it exactly when it then holds a thread and that queue
  is not empty. \<open>migrate_from_self\<close> wakes a CPU whose queue is not empty and moves
  nothing; for a CPU with an empty queue it moves one thread from the caller's queue
  to that queue and wakes it, or, when the caller's queue is empty too, finds that out
  by a failed \<open>dequeue\<close> and leaves the state as it is.
\<close>

theorem migrate_each_idle_cpu:
  assumes "idle_cpu_mask s = Some b"
  shows "migrate_to_self t first_cpu ncpus s tr
           = to_self_steps t (filter b [first_cpu..<first_cpu + ncpus]) s tr
    \<and> migrate_from_self self first_cpu ncpus s tr
           = from_self_steps self (filter b [first_cpu..<first_cpu + ncpus]) s tr
    \<and> to_self_step (Some x) cpu s =
        (if thread_queue (cpuinfo_from_id s cpu) \<noteq> []
         then Inr (Some x, clear_idle b cpu s, wakeup_events b cpu)
         else Inr (Some x, s, []))
    \<and> (thread_queue (cpuinfo_from_id s cpu) = [] \<longrightarrow>
          to_self_step None cpu s = Inr (None, s, [EvDequeue (TQ cpu) None]))
    \<and> (\<forall>y r. thread_queue (cpuinfo_from_id s cpu) = y # r \<longrightarrow>
          to_self_step None cpu s =
            (if r \<noteq> []
             then Inr (Some y, clear_idle b cpu (set_thread_queue cpu r s),
                       EvDequeue (TQ cpu) (Some y) # wakeup_events b cpu)
             else Inr (Some y, set_thread_queue cpu r s, [EvDequeue (TQ cpu) (Some y)])))
    \<and> (thread_queue (cpuinfo_from_id s cpu) \<noteq> [] \<longrightarrow>
          from_self_step self cpu s = Inr (clear_idle b cpu s, wakeup_events b cpu))
    \<and> (\<forall>y r. thread_queue (cpuinfo_from_id s cpu) = []
             \<and> thread_queue (cpuinfo_from_id s self) = y # r \<longrightarrow>
          from_self_step self cpu s =
            Inr (clear_idle b cpu (set_thread_queue cpu [y] (set_thread_queue self r s)),
                 [EvDequeue (TQ self) (Some y), EvEnqueue (TQ cpu) y True] @ wakeup_events b cpu))
    \<and> (thread_queue (cpuinfo_from_id s cpu) = []
          \<and> thread_queue (cpuinfo_from_id s self) = [] \<longrightarrow>
          from_self_step self cpu s = Inr (s, [EvDequeue (TQ self) None]))"
  using assms
  by (simp add: migrate_to_self_steps migrate_from_self_steps to_self_step_hold
      to_self_step_empty to_self_step_take from_self_step_wake from_self_step_move
      from_self_step_none)

theorem migrate_each_idle_cpu_witness:
  "idle_cpu_mask pull_demo = Some (\<lambda>c. c = 1 \<or> c = 2)
   \<and> (case migrate_to_self None 1 2 pull_demo [] of
         Inl e \<Rightarrow> False
       | Inr (t, s', tr) \<Rightarrow>
           t = Some 5 \<and> tr = [EvDequeue (TQ 1) (Some 5), EvWakeup 1, EvIpi 1]
           \<and> thread_queue (cpuinfo_from_id s' 1) = [6])
   \<and> (case migrate_from_self 0 1 2 push_demo [] of
         Inl e \<Rightarrow> False
       | Inr (s', tr) \<Rightarrow>
           tr = [EvDequeue (TQ 0) (Some 7), EvEnqueue (TQ 1) 7 True, EvWakeup 1, EvIpi 1,
                 EvWakeup 2, EvIpi 2]
           \<and> thread_queue (cpuinfo_from_id s' 0) = [8]
           \<and> thread_queue (cpuinfo_from_id s' 1) = [7])"
proof -
  have m: "idle_cpu_mask pull_demo = Some (\<lambda>c. c = 1 \<or> c = 2)"
    "idle_cpu_mask push_demo = Some (\<lambda>c. c = 1 \<or> c = 2)"
    by (simp_all add: pull_demo_def push_demo_def queues_sched_def)
  have f: "filter (\<lambda>c. c = 1 \<or> c = 2) [1..<1 + 2] = [1, 2::nat]"
    by (simp add: upt_conv_Cons)
  from migrate_each_idle_cpu [OF m(1), of None 1 2 "[]"]
  have a: "migrate_to_self None 1 2 pull_demo [] = to_self_steps None [1, 2] pull_demo []"
    by (simp only: f)
  from migrate_each_idle_cpu [OF m(2), of _ 1 2 "[]" 0]
  have b: "migrate_from_self 0 1 2 push_demo [] = from_self_steps 0 [1, 2] push_demo []"
    by (simp only: f)
  show ?thesis
    unfolding a b
    by (simp add: pull_demo_def push_demo_def queues_sched_def plain_sched_def fresh_cpu_def
        to_self_step_def from_self_step_def dequeue_def enqueue_def queue_capacity_def
        queue_empty_def wakeup_cpu_def bitmap_test_and_set_atomic_def set_thread_queue_def
        Let_def)
qed

subsection \<open>The calls of the phases\<close>

lemma dequeued_append [simp]: "dequeued (a @ b) = dequeued a @ dequeued b"
  by (simp add: dequeued_def)

lemma applied_append [simp]: "applied (a @ b) = applied a @ applied b"
  by (simp add: applied_def)

lemma requeued_append [simp]: "requeued (a @ b) = requeued a @ requeued b"
  by (simp add: requeued_def)

lemma dequeued_Nil [simp]: "dequeued [] = []"
  by (simp add: dequeued_def)

lemma applied_Nil [simp]: "applied [] = []"
  by (simp add: applied_def)

lemma requeued_Nil [simp]: "requeued [] = []"
  by (simp add: requeued_def)

lemma dequeued_Cons [simp]: "dequeued (e # tr) = deq_thunk e @ dequeued tr"
  by (simp add: dequeued_def)

lemma applied_Cons [simp]: "applied (e # tr) = run_thunks e @ applied tr"
  by (simp add: applied_def)

lemma requeued_Cons [simp]: "requeued (e # tr) = enq_thunk e @ requeued tr"
  by (simp add: requeued_def)

lemma timer_calls_append [simp]: "timer_calls (a @ b) = timer_calls a @ timer_calls b"
  by (induction a rule: timer_calls.induct) simp_all

lemma thread_event_late: "thread_event e \<Longrightarrow> late_event e"
  by (cases e rule: thread_event.cases) simp_all

lemma thread_events_applied: "list_all thread_event tr \<Longrightarrow> applied tr = []"
proof (induction tr)
  case Nil
  then show ?case by simp
next
  case (Cons e tr)
  then show ?case by (cases e rule: thread_event.cases) simp_all
qed

lemma drain_events_balance [simp]:
  "dequeued (drain_events q ts) = ts" "applied (drain_events q ts) = ts"
  "requeued (drain_events q ts) = []" "list_all (good_enqueue self) (drain_events q ts)"
  by (induction ts) (simp_all add: drain_events_def)

lemma drain_events_Cons:
  "drain_events q (t # ts) = [EvDequeue q (Some t), EvRun t] @ drain_events q ts"
  by (simp add: drain_events_def)

lemma drain_bhqueue_events:
  "drain_bhqueue n E s tr = Inr (s', tr') \<Longrightarrow> \<exists>ts. tr' = tr @ drain_events BHQ ts"
proof (induction n arbitrary: s tr)
  case 0
  then show ?case by simp
next
  case (Suc n)
  show ?case
  proof (cases "bhqueue s")
    case Nil
    with Suc.prems have "tr' = tr @ drain_events BHQ []"
      by (simp add: dequeue_def drain_events_def)
    then show ?thesis ..
  next
    case (Cons t q)
    with Suc.prems have
      "drain_bhqueue n E (run_thunk E t (s\<lparr>bhqueue := q\<rparr>)) (tr @ [EvDequeue BHQ (Some t), EvRun t])
         = Inr (s', tr')"
      by (simp add: dequeue_def)
    from Suc.IH [OF this] obtain ts where
      "tr' = (tr @ [EvDequeue BHQ (Some t), EvRun t]) @ drain_events BHQ ts" ..
    then have "tr' = tr @ drain_events BHQ (t # ts)"
      by (simp add: drain_events_Cons)
    then show ?thesis ..
  qed
qed

lemma drain_runqueue_events:
  "drain_runqueue n E s tr = Inr (s', tr') \<Longrightarrow> \<exists>ts. tr' = tr @ drain_events RUNQ ts"
proof (induction n arbitrary: s tr)
  case 0
  then show ?case by simp
next
  case (Suc n)
  show ?case
  proof (cases "runqueue s")
    case Nil
    with Suc.prems have "tr' = tr @ drain_events RUNQ []"
      by (simp add: dequeue_def drain_events_def)
    then show ?thesis ..
  next
    case (Cons t q)
    with Suc.prems have
      "drain_runqueue n E (run_thunk E t (s\<lparr>runqueue := q\<rparr>)) (tr @ [EvDequeue RUNQ (Some t), EvRun t])
         = Inr (s', tr')"
      by (simp add: dequeue_def)
    from Suc.IH [OF this] obtain ts where
      "tr' = (tr @ [EvDequeue RUNQ (Some t), EvRun t]) @ drain_events RUNQ ts" ..
    then have "tr' = tr @ drain_events RUNQ (t # ts)"
      by (simp add: drain_events_Cons)
    then show ?thesis ..
  qed
qed

lemma update_timer_events:
  "update_timer E self s = (tu, s', tr) \<Longrightarrow>
     (\<not> tu \<and> tr = []) \<or> (\<exists>nw timeout. tu \<and> tr = [EvNow nw, EvRunloopTimer timeout])"
  by (auto simp: update_timer_def Let_def split: prod.splits if_splits)

lemma locked_work_events:
  assumes "locked_work fuel E self s = Inr (tu, s', tr)"
  shows "\<exists>nw ts tm. tr = [EvNow nw, EvTimerService nw] @ drain_events RUNQ ts
                        @ [EvMmService] @ tm @ [EvUnlock]
           \<and> ((\<not> tu \<and> tm = []) \<or> (\<exists>nw' timeout. tu \<and> tm = [EvNow nw', EvRunloopTimer timeout]))"
proof -
  obtain nw x2 where n: "now E (ext (set_cpu_state self cpu_kernel s)) = (nw, x2)"
    by (cases "now E (ext (set_cpu_state self cpu_kernel s))")
  let ?s3 = "timer_service E nw ((set_cpu_state self cpu_kernel s)\<lparr>ext := x2\<rparr>)"
  from assms n obtain s4 tr4 where
    d: "drain_runqueue fuel E ?s3 [EvNow nw, EvTimerService nw] = Inr (s4, tr4)"
    by (auto simp: locked_work_def Let_def split: sum.splits)
  obtain tu' s6 tr6 where u: "update_timer E self (mm_service E s4) = (tu', s6, tr6)"
    by (cases "update_timer E self (mm_service E s4)")
  from assms n d u have r: "tu = tu'" "tr = tr4 @ [EvMmService] @ tr6 @ [EvUnlock]"
    by (auto simp: locked_work_def Let_def split: sum.splits)
  from drain_runqueue_events [OF d] obtain ts where
    t: "tr4 = [EvNow nw, EvTimerService nw] @ drain_events RUNQ ts" ..
  from update_timer_events [OF u] r t show ?thesis
    by auto
qed

lemma held_simps [simp]: "held None = []" "held (Some x) = [x]"
  by (simp_all add: held_def)

lemma wakeup_cpu_events:
  "wakeup_cpu cpu s = Inr (s', ev) \<Longrightarrow>
     list_all thread_event ev \<and> dequeued ev = [] \<and> requeued ev = []
     \<and> list_all (good_enqueue self) ev"
  by (auto simp: wakeup_cpu_def bitmap_test_and_set_atomic_def Let_def
      split: option.splits if_splits)

lemma to_self_step_events:
  assumes "to_self_step t cpu s = Inr (t', s', ev)"
  shows "list_all thread_event ev \<and> held t' = held t @ dequeued ev \<and> requeued ev = []
     \<and> list_all (good_enqueue self) ev"
proof (cases t)
  case None
  show ?thesis
  proof (cases "thread_queue (cpuinfo_from_id s cpu)")
    case Nil
    with None assms show ?thesis
      by (auto simp: to_self_step_empty)
  next
    case (Cons y r)
    with None assms show ?thesis
      by (auto simp: to_self_step_def dequeue_def Let_def
          split: if_splits sum.splits dest: wakeup_cpu_events [where self = self])
  qed
next
  case (Some x)
  with assms show ?thesis
    by (auto simp: to_self_step_def Let_def
        split: if_splits sum.splits dest: wakeup_cpu_events [where self = self])
qed

lemma from_self_step_events:
  assumes "from_self_step self cpu s = Inr (s', ev)"
  shows "list_all thread_event ev \<and> dequeued ev = requeued ev \<and> list_all (good_enqueue self) ev"
proof (cases "thread_queue (cpuinfo_from_id s cpu)")
  case Nil
  show ?thesis
  proof (cases "thread_queue (cpuinfo_from_id s self)")
    case n: Nil
    with Nil assms show ?thesis
      by (auto simp: from_self_step_none)
  next
    case (Cons y r)
    with Nil have ne: "cpu \<noteq> self" by auto
    with Nil Cons assms show ?thesis
      by (auto simp: from_self_step_def queue_empty_def dequeue_def enqueue_def
          queue_capacity_def set_thread_queue_def Let_def
          split: sum.splits dest: wakeup_cpu_events [where self = self])
  qed
next
  case (Cons y r)
  with assms show ?thesis
    by (auto simp: from_self_step_def queue_empty_def dest: wakeup_cpu_events [where self = self])
qed

lemma migrate_to_self_events:
  "migrate_to_self t first_cpu ncpus s tr = Inr (t', s', tr') \<Longrightarrow>
     \<exists>ev. tr' = tr @ ev \<and> list_all thread_event ev \<and> held t' = held t @ dequeued ev
          \<and> requeued ev = [] \<and> list_all (good_enqueue self) ev"
proof (induction t first_cpu ncpus s tr rule: migrate_to_self.induct)
  case (1 t first_cpu ncpus s tr)
  show ?case
  proof (cases "ncpus = 0")
    case True
    with "1.prems" show ?thesis by (simp add: migrate_to_self.simps)
  next
    case False
    with "1.prems" obtain b where m: "idle_cpu_mask s = Some b"
      by (auto simp: migrate_to_self.simps [of t first_cpu ncpus] split: option.splits)
    show ?thesis
    proof (cases "bitmap_range_get_first b first_cpu ncpus")
      case None
      with False m "1.prems" show ?thesis
        by (simp add: migrate_to_self.simps [of t first_cpu ncpus])
    next
      case (Some cpu)
      with False m "1.prems" obtain t1 s1 ev1 where
        st: "to_self_step t cpu s = Inr (t1, s1, ev1)"
        and rec: "migrate_to_self t1 (cpu + 1) (ncpus - (cpu - first_cpu + 1)) s1 (tr @ ev1)
                    = Inr (t', s', tr')"
        by (auto simp: migrate_to_self.simps [of t first_cpu ncpus] split: sum.splits)
      from "1.IH" [OF False m Some st refl refl rec] obtain ev2 where
        e2: "tr' = (tr @ ev1) @ ev2" "list_all thread_event ev2"
          "held t' = held t1 @ dequeued ev2" "requeued ev2 = []"
          "list_all (good_enqueue self) ev2"
        by blast
      from to_self_step_events [OF st, of self] e2
      have "tr' = tr @ (ev1 @ ev2) \<and> list_all thread_event (ev1 @ ev2)
          \<and> held t' = held t @ dequeued (ev1 @ ev2) \<and> requeued (ev1 @ ev2) = []
          \<and> list_all (good_enqueue self) (ev1 @ ev2)"
        by simp
      then show ?thesis by blast
    qed
  qed
qed

lemma migrate_from_self_events:
  "migrate_from_self self first_cpu ncpus s tr = Inr (s', tr') \<Longrightarrow>
     \<exists>ev. tr' = tr @ ev \<and> list_all thread_event ev \<and> dequeued ev = requeued ev
          \<and> list_all (good_enqueue self) ev"
proof (induction self first_cpu ncpus s tr rule: migrate_from_self.induct)
  case (1 self first_cpu ncpus s tr)
  show ?case
  proof (cases "ncpus = 0")
    case True
    with "1.prems" show ?thesis by (simp add: migrate_from_self.simps)
  next
    case False
    with "1.prems" obtain b where m: "idle_cpu_mask s = Some b"
      by (auto simp: migrate_from_self.simps [of self first_cpu ncpus] split: option.splits)
    show ?thesis
    proof (cases "bitmap_range_get_first b first_cpu ncpus")
      case None
      with False m "1.prems" show ?thesis
        by (simp add: migrate_from_self.simps [of self first_cpu ncpus])
    next
      case (Some cpu)
      with False m "1.prems" obtain s1 ev1 where
        st: "from_self_step self cpu s = Inr (s1, ev1)"
        and rec: "migrate_from_self self (cpu + 1) (ncpus - (cpu - first_cpu + 1)) s1 (tr @ ev1)
                    = Inr (s', tr')"
        by (auto simp: migrate_from_self.simps [of self first_cpu ncpus] split: sum.splits)
      from "1.IH" [OF False m Some st refl rec] obtain ev2 where
        e2: "tr' = (tr @ ev1) @ ev2" "list_all thread_event ev2"
          "dequeued ev2 = requeued ev2" "list_all (good_enqueue self) ev2"
        by blast
      from from_self_step_events [OF st] e2
      have "tr' = tr @ (ev1 @ ev2) \<and> list_all thread_event (ev1 @ ev2)
          \<and> dequeued (ev1 @ ev2) = requeued (ev1 @ ev2)
          \<and> list_all (good_enqueue self) (ev1 @ ev2)"
        by simp
      then show ?thesis by blast
    qed
  qed
qed

lemma steal_busy_events:
  "steal_busy self cpu s tr = Inr (t', s', tr') \<Longrightarrow>
     \<exists>ev. tr' = tr @ ev \<and> list_all thread_event ev \<and> held t' = dequeued ev
          \<and> requeued ev = [] \<and> list_all (good_enqueue self) ev"
proof (induction self cpu s tr rule: steal_busy.induct)
  case (1 self cpu s tr)
  let ?c = "if cpu = total_processors s then 0 else cpu"
  from "1.prems" have g: "\<not> (total_processors s \<le> self \<or> total_processors s < cpu)"
    by (auto simp: steal_busy.simps [of self cpu] split: if_splits)
  show ?case
  proof (cases "?c = self")
    case True
    with g "1.prems" show ?thesis
      by (simp add: steal_busy.simps [of self cpu])
  next
    case False
    show ?thesis
    proof (cases "state (cpuinfo_from_id s ?c) = cpu_user")
      case u: True
      show ?thesis
      proof (cases "thread_queue (cpuinfo_from_id s ?c)")
        case Nil
        with g False u "1.prems" have
          rec: "steal_busy self (?c + 1) s (tr @ [EvDequeue (TQ ?c) None]) = Inr (t', s', tr')"
          by (simp add: steal_busy.simps [of self cpu] dequeue_def)
        have dq: "dequeue (thread_queue (cpuinfo_from_id s ?c)) = (None, [])"
          using Nil by (simp add: dequeue_def)
        from "1.IH"(1) [OF g False u dq [symmetric] refl rec] obtain ev where
          "tr' = (tr @ [EvDequeue (TQ ?c) None]) @ ev" "list_all thread_event ev"
          "held t' = dequeued ev" "requeued ev = []" "list_all (good_enqueue self) ev"
          by blast
        then have "tr' = tr @ (EvDequeue (TQ ?c) None # ev)
            \<and> list_all thread_event (EvDequeue (TQ ?c) None # ev)
            \<and> held t' = dequeued (EvDequeue (TQ ?c) None # ev)
            \<and> requeued (EvDequeue (TQ ?c) None # ev) = []
            \<and> list_all (good_enqueue self) (EvDequeue (TQ ?c) None # ev)"
          by simp
        then show ?thesis by blast
      next
        case (Cons y r)
        with g False u "1.prems" have "t' = Some y" "tr' = tr @ [EvDequeue (TQ ?c) (Some y)]"
          by (auto simp: steal_busy.simps [of self cpu] dequeue_def)
        then have "tr' = tr @ [EvDequeue (TQ ?c) (Some y)]
            \<and> list_all thread_event [EvDequeue (TQ ?c) (Some y)]
            \<and> held t' = dequeued [EvDequeue (TQ ?c) (Some y)]
            \<and> requeued [EvDequeue (TQ ?c) (Some y)] = []
            \<and> list_all (good_enqueue self) [EvDequeue (TQ ?c) (Some y)]"
          by simp
        then show ?thesis by blast
      qed
    next
      case nu: False
      with g False "1.prems" have rec: "steal_busy self (?c + 1) s tr = Inr (t', s', tr')"
        by (simp add: steal_busy.simps [of self cpu])
      from "1.IH"(2) [OF g False nu rec] show ?thesis .
    qed
  qed
qed

lemma select_thread_events:
  assumes "select_thread self s = Inr (t, s', tr)"
  shows "list_all thread_event tr \<and> dequeued tr = held t @ requeued tr
     \<and> list_all (good_enqueue self) tr"
proof (cases "thread_queue (cpuinfo_from_id s self)")
  case Nil
  let ?tr0 = "[EvDequeue (TQ self) None]"
  from Nil assms obtain t1 s1 tr1 where
    a: "(if self + 1 < total_processors s
         then migrate_to_self None (self + 1) (total_processors s - self - 1) s ?tr0
         else Inr (None, s, ?tr0)) = Inr (t1, s1, tr1)"
    by (auto simp: select_thread_def dequeue_def Let_def split: sum.splits)
  from Nil assms a obtain t2 s2 tr2 where
    b: "(if 0 < self then migrate_to_self t1 0 self s1 tr1 else Inr (t1, s1, tr1))
          = Inr (t2, s2, tr2)"
    by (auto simp: select_thread_def dequeue_def Let_def split: sum.splits)
  from Nil assms a b have
    c: "(if t2 = None then steal_busy self (self + 1) s2 tr2 else Inr (t2, s2, tr2))
          = Inr (t, s', tr)"
    by (auto simp: select_thread_def dequeue_def Let_def split: sum.splits)
  from a obtain ev1 where e1: "tr1 = ?tr0 @ ev1" "list_all thread_event ev1"
    "held t1 = dequeued ev1" "requeued ev1 = []" "list_all (good_enqueue self) ev1"
    using migrate_to_self_events [of None "self + 1" "total_processors s - self - 1" s ?tr0 t1 s1 tr1 self]
    by (auto split: if_splits)
  from b obtain ev2 where e2: "tr2 = tr1 @ ev2" "list_all thread_event ev2"
    "held t2 = held t1 @ dequeued ev2" "requeued ev2 = []" "list_all (good_enqueue self) ev2"
    using migrate_to_self_events [of t1 0 self s1 tr1 t2 s2 tr2 self]
    by (auto split: if_splits)
  from c obtain ev3 where e3: "tr = tr2 @ ev3" "list_all thread_event ev3"
    "held t = held t2 @ dequeued ev3" "requeued ev3 = []" "list_all (good_enqueue self) ev3"
    using steal_busy_events [of self "self + 1" s2 tr2 t s' tr]
    by (auto split: if_splits)
  from e1 e2 e3 show ?thesis by simp
next
  case (Cons y r)
  let ?s0 = "set_thread_queue self r s"
  let ?tr0 = "[EvDequeue (TQ self) (Some y)]"
  from Cons assms obtain s1 tr1 where
    a: "(if self + 1 < total_processors ?s0
         then migrate_from_self self (self + 1) (total_processors ?s0 - self - 1) ?s0 ?tr0
         else Inr (?s0, ?tr0)) = Inr (s1, tr1)"
    by (auto simp: select_thread_def dequeue_def Let_def split: sum.splits)
  from Cons assms a obtain s2 tr2 where
    b: "(if 0 < self then migrate_from_self self 0 self s1 tr1 else Inr (s1, tr1)) = Inr (s2, tr2)"
    by (auto simp: select_thread_def dequeue_def Let_def split: sum.splits)
  from Cons assms a b have c: "t = Some y" "tr = tr2"
    by (auto simp: select_thread_def dequeue_def Let_def split: sum.splits)
  from a obtain ev1 where e1: "tr1 = ?tr0 @ ev1" "list_all thread_event ev1"
    "dequeued ev1 = requeued ev1" "list_all (good_enqueue self) ev1"
    using migrate_from_self_events [of self "self + 1" "total_processors ?s0 - self - 1" ?s0 ?tr0 s1 tr1]
    by (auto split: if_splits)
  from b obtain ev2 where e2: "tr2 = tr1 @ ev2" "list_all thread_event ev2"
    "dequeued ev2 = requeued ev2" "list_all (good_enqueue self) ev2"
    using migrate_from_self_events [of self 0 self s1 tr1 s2 tr2]
    by (auto split: if_splits)
  from c e1 e2 show ?thesis by simp
qed

lemma thread_timer_events:
  "thread_timer E self s = (s', tr) \<Longrightarrow>
     list_all timer_event tr \<and> dequeued tr = [] \<and> applied tr = [] \<and> requeued tr = []
     \<and> list_all (good_enqueue c) tr \<and> list_all late_event tr"
  by (auto simp: thread_timer_def Let_def split: prod.splits if_splits)

lemma run_thread_events:
  assumes "run_thread E self tu t s = (s', tr)"
  shows "applied tr = held t \<and> dequeued tr = [] \<and> requeued tr = []
     \<and> list_all (good_enqueue c) tr \<and> list_all late_event tr"
proof (cases t)
  case None
  with assms show ?thesis by (simp add: run_thread_def)
next
  case (Some x)
  obtain s1 tr1 where t: "thread_timer E self s = (s1, tr1)"
    by (cases "thread_timer E self s")
  from thread_timer_events [OF t, of c] Some assms t show ?thesis
    by (auto simp: run_thread_def Let_def split: if_splits)
qed

lemma late_events: "list_all thread_event tr \<Longrightarrow> list_all late_event tr"
  by (induction tr) (auto dest: thread_event_late)

lemma thread_phase_events:
  assumes "thread_phase E self tu s = Inr (s', tr)"
  shows "dequeued tr = applied tr @ requeued tr \<and> list_all (good_enqueue self) tr
     \<and> list_all late_event tr"
proof (cases "shutting_down s")
  case True
  with assms show ?thesis by (simp add: thread_phase_def)
next
  case False
  with assms obtain t s1 tr1 where sel: "select_thread self s = Inr (t, s1, tr1)"
    by (auto simp: thread_phase_def split: sum.splits)
  obtain s2 tr2 where r: "run_thread E self tu t s1 = (s2, tr2)"
    by (cases "run_thread E self tu t s1")
  from False assms sel r have tr: "tr = tr1 @ tr2"
    by (simp add: thread_phase_def)
  from select_thread_events [OF sel] run_thread_events [OF r, of self] tr
  show ?thesis
    by (simp add: thread_events_applied late_events)
qed

lemma sched_thread_pause_events:
  "sched_thread_pause E self s = (s', tr) \<Longrightarrow>
     list_all pause_event tr \<and> dequeued tr = [] \<and> applied tr = [] \<and> requeued tr = []
     \<and> list_all (good_enqueue c) tr \<and> list_all late_event tr"
  by (auto simp: sched_thread_pause_def split: if_splits option.splits)

lemma sched_thread_pause_shutdown:
  "shutting_down s \<Longrightarrow> sched_thread_pause E self s = (s, [])"
  by (simp add: sched_thread_pause_def)

lemma lock_phase_events:
  assumes "lock_phase fuel E self s = Inr (tu, s', tr)"
  shows "\<exists>b lk. tr = EvTryLock b # lk
    \<and> (if b then \<exists>nw rq tm. lk = [EvNow nw, EvTimerService nw] @ drain_events RUNQ rq
                      @ [EvMmService] @ tm @ [EvUnlock]
                    \<and> ((\<not> tu \<and> tm = []) \<or> (\<exists>nw' timeout. tu \<and> tm = [EvNow nw', EvRunloopTimer timeout]))
        else lk = [] \<and> \<not> tu)"
proof -
  from assms obtain b s1 where k: "kern_try_lock self s = Inr (b, s1)"
    by (auto simp: lock_phase_def split: sum.splits)
  show ?thesis
  proof (cases b)
    case True
    with assms k obtain lk where w: "locked_work fuel E self s1 = Inr (tu, s', lk)"
      and t: "tr = EvTryLock True # lk"
      by (auto simp: lock_phase_def split: sum.splits)
    from locked_work_events [OF w] t show ?thesis
      by auto
  next
    case False
    with assms k show ?thesis
      by (auto simp: lock_phase_def)
  qed
qed

lemma runloop_to_unlock_events:
  assumes "runloop_to_unlock fuel E self s = Inr (tu, s3, tr)"
  shows "\<exists>pre bh b lk. sched_thread_pause E self s = (fst (sched_thread_pause E self s), pre)
    \<and> tr = pre @ drain_events BHQ bh @ [EvTryLock b] @ lk
    \<and> list_all pause_event pre
    \<and> (if b then \<exists>nw rq tm. lk = [EvNow nw, EvTimerService nw] @ drain_events RUNQ rq
                      @ [EvMmService] @ tm @ [EvUnlock]
                    \<and> ((\<not> tu \<and> tm = []) \<or> (\<exists>nw' timeout. tu \<and> tm = [EvNow nw', EvRunloopTimer timeout]))
        else lk = [] \<and> \<not> tu)"
proof -
  obtain s0 tr0 where p: "sched_thread_pause E self s = (s0, tr0)"
    by (cases "sched_thread_pause E self s")
  from assms p obtain s2 tr2 where
    d: "drain_bhqueue fuel E (set_cpu_state self cpu_kernel s0) tr0 = Inr (s2, tr2)"
    by (auto simp: runloop_to_unlock_def Let_def split: sum.splits)
  from assms p d obtain tr3 where l: "lock_phase fuel E self s2 = Inr (tu, s3, tr3)"
    and t: "tr = tr2 @ tr3"
    by (auto simp: runloop_to_unlock_def Let_def split: sum.splits)
  from drain_bhqueue_events [OF d] obtain bh where b: "tr2 = tr0 @ drain_events BHQ bh" ..
  from lock_phase_events [OF l] obtain b lk where k: "tr3 = EvTryLock b # lk"
    "if b then \<exists>nw rq tm. lk = [EvNow nw, EvTimerService nw] @ drain_events RUNQ rq
                      @ [EvMmService] @ tm @ [EvUnlock]
                    \<and> ((\<not> tu \<and> tm = []) \<or> (\<exists>nw' timeout. tu \<and> tm = [EvNow nw', EvRunloopTimer timeout]))
        else lk = [] \<and> \<not> tu"
    by blast
  from sched_thread_pause_events [OF p] have "list_all pause_event tr0" by simp
  with p t b k show ?thesis
    by (intro exI [of _ tr0] exI [of _ bh] exI [of _ b] exI [of _ lk]) simp
qed

lemma runloop_internal_parts:
  assumes "runloop_internal fuel E self s = Inr (s', tr)"
  shows "\<exists>tu s3 tr3 post. runloop_to_unlock fuel E self s = Inr (tu, s3, tr3)
     \<and> tr = tr3 @ post \<and> list_all late_event post
     \<and> dequeued post = applied post @ requeued post \<and> list_all (good_enqueue self) post"
proof -
  from assms obtain tu s3 tr3 where u: "runloop_to_unlock fuel E self s = Inr (tu, s3, tr3)"
    by (auto simp: runloop_internal_def split: sum.splits)
  from assms u obtain s4 tr4 where p: "thread_phase E self tu s3 = Inr (s4, tr4)"
    by (auto simp: runloop_internal_def split: sum.splits)
  obtain s5 tr5 where q: "sched_thread_pause E self s4 = (s5, tr5)"
    by (cases "sched_thread_pause E self s4")
  from assms u p q have t: "tr = tr3 @ (tr4 @ tr5 @ [EvSleep])"
    by (simp add: runloop_internal_def)
  from thread_phase_events [OF p] sched_thread_pause_events [OF q, of self]
  have "list_all late_event (tr4 @ tr5 @ [EvSleep])"
    "dequeued (tr4 @ tr5 @ [EvSleep]) = applied (tr4 @ tr5 @ [EvSleep]) @ requeued (tr4 @ tr5 @ [EvSleep])"
    "list_all (good_enqueue self) (tr4 @ tr5 @ [EvSleep])"
    by simp_all
  with u t show ?thesis by blast
qed

lemma pause_events_balance:
  "list_all pause_event tr \<Longrightarrow>
     dequeued tr = [] \<and> applied tr = [] \<and> requeued tr = [] \<and> list_all (good_enqueue c) tr"
proof (induction tr)
  case Nil
  then show ?case by simp
next
  case (Cons e tr)
  then show ?case by (cases e rule: pause_event.cases) simp_all
qed

subsection \<open>Fuel\<close>

text \<open>
  A drain loop ends when the closures it runs do not make its queue longer: fuel above
  the length of the queue is then enough for the model to return.
\<close>

lemma drain_bhqueue_enough_fuel:
  assumes "\<And>t s. length (bhqueue (apply_thunk E t s)) \<le> length (bhqueue s)"
  shows "length (bhqueue s) < n \<Longrightarrow> \<exists>s' tr'. drain_bhqueue n E s tr = Inr (s', tr')"
proof (induction n arbitrary: s tr)
  case 0
  then show ?case by simp
next
  case (Suc n)
  show ?case
  proof (cases "bhqueue s")
    case Nil
    then show ?thesis by (simp add: dequeue_def)
  next
    case (Cons t q)
    have "length (bhqueue (run_thunk E t (s\<lparr>bhqueue := q\<rparr>))) \<le> length q"
      using assms [of t "s\<lparr>bhqueue := q\<rparr>"] by (simp add: run_thunk_def)
    with Suc.prems Cons have "length (bhqueue (run_thunk E t (s\<lparr>bhqueue := q\<rparr>))) < n"
      by simp
    from Suc.IH [OF this] Cons show ?thesis
      by (simp add: dequeue_def)
  qed
qed

lemma drain_runqueue_enough_fuel:
  assumes "\<And>t s. length (runqueue (apply_thunk E t s)) \<le> length (runqueue s)"
  shows "length (runqueue s) < n \<Longrightarrow> \<exists>s' tr'. drain_runqueue n E s tr = Inr (s', tr')"
proof (induction n arbitrary: s tr)
  case 0
  then show ?case by simp
next
  case (Suc n)
  show ?case
  proof (cases "runqueue s")
    case Nil
    then show ?thesis by (simp add: dequeue_def)
  next
    case (Cons t q)
    have "length (runqueue (run_thunk E t (s\<lparr>runqueue := q\<rparr>))) \<le> length q"
      using assms [of t "s\<lparr>runqueue := q\<rparr>"] by (simp add: run_thunk_def)
    with Suc.prems Cons have "length (runqueue (run_thunk E t (s\<lparr>runqueue := q\<rparr>))) < n"
      by simp
    from Suc.IH [OF this] Cons show ?thesis
      by (simp add: dequeue_def)
  qed
qed

subsection \<open>Passes on the example configurations\<close>

lemma migrate_to_self_eval:
  "migrate_to_self t first_cpu ncpus s tr =
     (case idle_cpu_mask s of
        None \<Rightarrow> (if ncpus = 0 then Inr (t, s, tr) else Inl NullDeref)
      | Some b \<Rightarrow> to_self_steps t (filter b [first_cpu..<first_cpu + ncpus]) s tr)"
proof (cases "idle_cpu_mask s")
  case None
  then show ?thesis by (simp add: migrate_to_self.simps [of t first_cpu ncpus])
next
  case (Some b)
  then show ?thesis by (simp add: migrate_to_self_steps)
qed

lemma migrate_from_self_eval:
  "migrate_from_self self first_cpu ncpus s tr =
     (case idle_cpu_mask s of
        None \<Rightarrow> (if ncpus = 0 then Inr (s, tr) else Inl NullDeref)
      | Some b \<Rightarrow> from_self_steps self (filter b [first_cpu..<first_cpu + ncpus]) s tr)"
proof (cases "idle_cpu_mask s")
  case None
  then show ?thesis by (simp add: migrate_from_self.simps [of self first_cpu ncpus])
next
  case (Some b)
  then show ?thesis by (simp add: migrate_from_self_steps)
qed

lemma drain_bhqueue_unfold:
  "0 < n \<Longrightarrow> drain_bhqueue n E s tr =
     (case dequeue (bhqueue s) of
        (None, q) \<Rightarrow> Inr (s, tr @ [EvDequeue BHQ None])
      | (Some t, q) \<Rightarrow>
          drain_bhqueue (n - 1) E (run_thunk E t (s\<lparr>bhqueue := q\<rparr>))
            (tr @ [EvDequeue BHQ (Some t), EvRun t]))"
  by (cases n) (auto split: prod.splits option.splits)

lemma drain_runqueue_unfold:
  "0 < n \<Longrightarrow> drain_runqueue n E s tr =
     (case dequeue (runqueue s) of
        (None, q) \<Rightarrow> Inr (s, tr @ [EvDequeue RUNQ None])
      | (Some t, q) \<Rightarrow>
          drain_runqueue (n - 1) E (run_thunk E t (s\<lparr>runqueue := q\<rparr>))
            (tr @ [EvDequeue RUNQ (Some t), EvRun t]))"
  by (cases n) (auto split: prod.splits option.splits)

lemmas pass_eval =
  runloop_internal_def runloop_to_unlock_def sched_thread_pause_def
  queues_sched_def plain_sched_def fresh_cpu_def quiet_env_def
  set_cpu_state_def set_thread_queue_def set_cpu_timer_def set_have_lock_def
  dequeue_def enqueue_def queue_capacity_def queue_empty_def run_thunk_def
  lock_phase_def kern_try_lock_def kern_unlock_def
  locked_work_def update_timer_def timer_timeout_def thread_phase_def select_thread_def
  run_thread_def thread_timer_def kernel_sleep_enter_def bitmap_set_atomic_def
  bitmap_test_and_set_atomic_def wakeup_cpu_def to_self_step_def from_self_step_def
  Let_def migrate_to_self_eval migrate_from_self_eval steal_busy.simps
  drain_bhqueue_unfold drain_runqueue_unfold upt_conv_Cons

lemma busy_demo_pass:
  "case runloop_internal 5 (quiet_env 50) 0 busy_demo of
     Inl e \<Rightarrow> False
   | Inr (s', tr) \<Rightarrow>
       tr = [EvDequeue BHQ (Some 1), EvRun 1, EvDequeue BHQ (Some 2), EvRun 2,
             EvDequeue BHQ None, EvTryLock True, EvNow 10, EvTimerService 10,
             EvDequeue RUNQ (Some 3), EvRun 3, EvDequeue RUNQ None, EvMmService,
             EvNow 11, EvRunloopTimer 39, EvUnlock,
             EvDequeue (TQ 0) (Some 4), EvRun 4, EvSleep]"
  by (simp add: busy_demo_def pass_eval)

lemma push_demo_pass:
  "case runloop_internal 5 (quiet_env 50) 0 push_demo of
     Inl e \<Rightarrow> False
   | Inr (s', tr) \<Rightarrow>
       tr = [EvDequeue BHQ None, EvTryLock True, EvNow 10, EvTimerService 10,
             EvDequeue RUNQ None, EvMmService, EvNow 11, EvRunloopTimer 39, EvUnlock,
             EvDequeue (TQ 0) (Some 7), EvDequeue (TQ 0) (Some 8), EvEnqueue (TQ 1) 8 True,
             EvWakeup 1, EvIpi 1, EvWakeup 2, EvIpi 2, EvRun 7, EvSleep]"
  by (simp add: push_demo_def pass_eval)

lemma pull_demo_pass:
  "case runloop_internal 5 (quiet_env 50) 0 pull_demo of
     Inl e \<Rightarrow> False
   | Inr (s', tr) \<Rightarrow>
       tr = [EvDequeue BHQ None, EvTryLock True, EvNow 10, EvTimerService 10,
             EvDequeue RUNQ None, EvMmService, EvNow 11, EvRunloopTimer 39, EvUnlock,
             EvDequeue (TQ 0) None, EvDequeue (TQ 1) (Some 5), EvWakeup 1, EvIpi 1,
             EvRun 5, EvSleep]"
  by (simp add: pull_demo_def pass_eval)


subsection \<open>The order of the phases\<close>

lemma kern_try_lock_flag:
  "kern_try_lock self s0 = Inr (True, s1) \<Longrightarrow> have_kernel_lock (cpuinfo_from_id s1 self)"
  by (auto simp: kern_try_lock_def set_have_lock_def split: if_splits)

lemma kern_unlock_flag:
  "kern_unlock self s0 = Inr s1 \<Longrightarrow> \<not> have_kernel_lock (cpuinfo_from_id s1 self)"
  by (auto simp: kern_unlock_def set_have_lock_def split: if_splits)

text \<open>
  C2. The calls of a pass that reaches \<open>kernel_sleep\<close> come in this order: the pause
  of the current thread; the drain of \<open>bhqueue\<close>, each task run as it is dequeued,
  up to the \<open>dequeue\<close> that finds it empty; then the one call of \<open>kern_try_lock\<close>;
  when it succeeded, the timer service, the drain of \<open>runqueue\<close>, \<open>mm_service\<close>,
  the timer update and \<open>kern_unlock\<close>, and nothing when it failed; then the rest,
  which has no call on \<open>bhqueue\<close>, \<open>runqueue\<close> or the lock and holds every
  \<open>dequeue\<close> of a thread queue. So every bottom half is run before the lock is tried,
  before any \<open>runqueue\<close> task and before any thread is dequeued, and \<open>runqueue\<close>
  is dequeued only between the successful \<open>kern_try_lock\<close>, which sets
  \<open>have_kernel_lock\<close>, and the \<open>kern_unlock\<close> that clears it.
\<close>

theorem runloop_phase_order:
  assumes "runloop_internal fuel E self s = Inr (s', tr)"
  shows "(\<exists>pre bh b lk post.
      tr = pre @ drain_events BHQ bh @ [EvTryLock b] @ lk @ post
    \<and> list_all pause_event pre
    \<and> (if b then \<exists>nw rq tm. lk = [EvNow nw, EvTimerService nw] @ drain_events RUNQ rq
                      @ [EvMmService] @ tm @ [EvUnlock] \<and> list_all timer_event tm
        else lk = [])
    \<and> list_all late_event post)
    \<and> (\<forall>s0 s1. kern_try_lock self s0 = Inr (True, s1) \<longrightarrow>
          have_kernel_lock (cpuinfo_from_id s1 self))
    \<and> (\<forall>s0 s1. kern_unlock self s0 = Inr s1 \<longrightarrow>
          \<not> have_kernel_lock (cpuinfo_from_id s1 self))"
proof -
  from runloop_internal_parts [OF assms] obtain tu s3 tr3 post where
    u: "runloop_to_unlock fuel E self s = Inr (tu, s3, tr3)" and t: "tr = tr3 @ post"
    and l: "list_all late_event post"
    by blast
  from runloop_to_unlock_events [OF u] obtain pre bh b lk where
    e: "tr3 = pre @ drain_events BHQ bh @ [EvTryLock b] @ lk" "list_all pause_event pre"
    and k: "if b then \<exists>nw rq tm. lk = [EvNow nw, EvTimerService nw] @ drain_events RUNQ rq
                      @ [EvMmService] @ tm @ [EvUnlock]
                    \<and> ((\<not> tu \<and> tm = []) \<or> (\<exists>nw' timeout. tu \<and> tm = [EvNow nw', EvRunloopTimer timeout]))
        else lk = [] \<and> \<not> tu"
    by blast
  have "if b then \<exists>nw rq tm. lk = [EvNow nw, EvTimerService nw] @ drain_events RUNQ rq
                      @ [EvMmService] @ tm @ [EvUnlock] \<and> list_all timer_event tm
        else lk = []"
  proof (cases b)
    case True
    with k obtain nw rq tm where
      lk: "lk = [EvNow nw, EvTimerService nw] @ drain_events RUNQ rq @ [EvMmService] @ tm @ [EvUnlock]"
      and tm: "(\<not> tu \<and> tm = []) \<or> (\<exists>nw' timeout. tu \<and> tm = [EvNow nw', EvRunloopTimer timeout])"
      by auto
    from tm have "list_all timer_event tm" by auto
    with lk True show ?thesis by auto
  next
    case False
    with k show ?thesis by simp
  qed
  with e t l have "\<exists>pre bh b lk post.
      tr = pre @ drain_events BHQ bh @ [EvTryLock b] @ lk @ post
    \<and> list_all pause_event pre
    \<and> (if b then \<exists>nw rq tm. lk = [EvNow nw, EvTimerService nw] @ drain_events RUNQ rq
                      @ [EvMmService] @ tm @ [EvUnlock] \<and> list_all timer_event tm
        else lk = [])
    \<and> list_all late_event post"
    by (intro exI [of _ pre] exI [of _ bh] exI [of _ b] exI [of _ lk] exI [of _ post]) simp
  then show ?thesis
    using kern_try_lock_flag [of self] kern_unlock_flag [of self] by blast
qed

theorem runloop_phase_order_witness:
  "(\<exists>s'. runloop_internal 5 (quiet_env 50) 0 busy_demo = Inr (s',
       [EvDequeue BHQ (Some 1), EvRun 1, EvDequeue BHQ (Some 2), EvRun 2,
        EvDequeue BHQ None, EvTryLock True, EvNow 10, EvTimerService 10,
        EvDequeue RUNQ (Some 3), EvRun 3, EvDequeue RUNQ None, EvMmService,
        EvNow 11, EvRunloopTimer 39, EvUnlock,
        EvDequeue (TQ 0) (Some 4), EvRun 4, EvSleep]))
   \<and> (\<exists>pre bh b lk post.
        [EvDequeue BHQ (Some 1), EvRun 1, EvDequeue BHQ (Some 2), EvRun 2,
         EvDequeue BHQ None, EvTryLock True, EvNow 10, EvTimerService 10,
         EvDequeue RUNQ (Some 3), EvRun 3, EvDequeue RUNQ None, EvMmService,
         EvNow 11, EvRunloopTimer 39, EvUnlock,
         EvDequeue (TQ 0) (Some 4), EvRun 4, EvSleep]
          = pre @ drain_events BHQ bh @ [EvTryLock b] @ lk @ post
        \<and> list_all pause_event pre
        \<and> (if b then \<exists>nw rq tm. lk = [EvNow nw, EvTimerService nw] @ drain_events RUNQ rq
                          @ [EvMmService] @ tm @ [EvUnlock] \<and> list_all timer_event tm
            else lk = [])
        \<and> list_all late_event post)"
proof -
  from busy_demo_pass obtain s' where
    r: "runloop_internal 5 (quiet_env 50) 0 busy_demo = Inr (s',
       [EvDequeue BHQ (Some 1), EvRun 1, EvDequeue BHQ (Some 2), EvRun 2,
        EvDequeue BHQ None, EvTryLock True, EvNow 10, EvTimerService 10,
        EvDequeue RUNQ (Some 3), EvRun 3, EvDequeue RUNQ None, EvMmService,
        EvNow 11, EvRunloopTimer 39, EvUnlock,
        EvDequeue (TQ 0) (Some 4), EvRun 4, EvSleep])"
    by (cases "runloop_internal 5 (quiet_env 50) 0 busy_demo") auto
  from runloop_phase_order [OF r] r show ?thesis
    by blast
qed

subsection \<open>Every dequeued task is consumed once\<close>

lemma applications_append [simp]: "applications (a @ b) = applications a @ applications b"
  by (simp add: applications_def)

lemma applications_Nil [simp]: "applications [] = []"
  by (simp add: applications_def)

lemma applications_Cons [simp]: "applications (e # tr) = applied_closure e @ applications tr"
  by (simp add: applications_def)

lemma paused_append [simp]: "paused (a @ b) = paused a @ paused b"
  by (simp add: paused_def)

lemma paused_Nil [simp]: "paused [] = []"
  by (simp add: paused_def)

lemma paused_Cons [simp]: "paused (e # tr) = pause_thunk e @ paused tr"
  by (simp add: paused_def)

lemma applications_split: "mset (applications tr) = mset (paused tr) + mset (applied tr)"
proof (induction tr)
  case Nil
  then show ?case by simp
next
  case (Cons e tr)
  then show ?case by (cases e) simp_all
qed

lemma thread_events_applications: "list_all thread_event tr \<Longrightarrow> applications tr = []"
proof (induction tr)
  case Nil
  then show ?case by simp
next
  case (Cons e tr)
  then show ?case by (cases e rule: thread_event.cases) simp_all
qed

lemma drain_events_applications [simp]: "applications (drain_events q ts) = ts"
  by (induction ts) (simp_all add: drain_events_def)

lemma observes_apply: "observes E lg \<Longrightarrow> lg (ext (apply_thunk E t s)) = lg (ext s) @ [t]"
  by (simp add: observes_def)

lemma observes_timer_service: "observes E lg \<Longrightarrow> lg (ext (timer_service E n s)) = lg (ext s)"
  by (simp add: observes_def)

lemma observes_mm_service: "observes E lg \<Longrightarrow> lg (ext (mm_service E s)) = lg (ext s)"
  by (simp add: observes_def)

lemma observes_now: "observes E lg \<Longrightarrow> now E x = (nw, x') \<Longrightarrow> lg x' = lg x"
  by (auto simp: observes_def dest: spec [of _ x])

lemma observes_timer_check: "observes E lg \<Longrightarrow> timer_check E x = (nxt, x') \<Longrightarrow> lg x' = lg x"
  by (auto simp: observes_def dest: spec [of _ x])

lemma observes_runloop_timer: "observes E lg \<Longrightarrow> lg (runloop_timer E d x) = lg x"
  by (simp add: observes_def)

lemma sched_thread_pause_log:
  "observes E lg \<Longrightarrow> sched_thread_pause E self s = (s', tr) \<Longrightarrow>
     lg (ext s') = lg (ext s) @ applications tr"
  by (auto simp: sched_thread_pause_def observes_apply split: if_splits option.splits)

lemma drain_bhqueue_log:
  assumes o: "observes E lg"
  shows "drain_bhqueue n E s tr = Inr (s', tr') \<Longrightarrow>
     \<exists>ts. tr' = tr @ drain_events BHQ ts \<and> lg (ext s') = lg (ext s) @ ts"
proof (induction n arbitrary: s tr)
  case 0
  then show ?case by simp
next
  case (Suc n)
  show ?case
  proof (cases "bhqueue s")
    case Nil
    with Suc.prems have "tr' = tr @ drain_events BHQ [] \<and> lg (ext s') = lg (ext s) @ []"
      by (simp add: dequeue_def drain_events_def)
    then show ?thesis ..
  next
    case (Cons t q)
    with Suc.prems have
      "drain_bhqueue n E (run_thunk E t (s\<lparr>bhqueue := q\<rparr>)) (tr @ [EvDequeue BHQ (Some t), EvRun t])
         = Inr (s', tr')"
      by (simp add: dequeue_def)
    from Suc.IH [OF this] obtain ts where
      "tr' = (tr @ [EvDequeue BHQ (Some t), EvRun t]) @ drain_events BHQ ts"
      "lg (ext s') = lg (ext (run_thunk E t (s\<lparr>bhqueue := q\<rparr>))) @ ts"
      by blast
    then have "tr' = tr @ drain_events BHQ (t # ts) \<and> lg (ext s') = lg (ext s) @ (t # ts)"
      by (simp add: drain_events_Cons run_thunk_def observes_apply [OF o])
    then show ?thesis ..
  qed
qed

lemma drain_runqueue_log:
  assumes o: "observes E lg"
  shows "drain_runqueue n E s tr = Inr (s', tr') \<Longrightarrow>
     \<exists>ts. tr' = tr @ drain_events RUNQ ts \<and> lg (ext s') = lg (ext s) @ ts"
proof (induction n arbitrary: s tr)
  case 0
  then show ?case by simp
next
  case (Suc n)
  show ?case
  proof (cases "runqueue s")
    case Nil
    with Suc.prems have "tr' = tr @ drain_events RUNQ [] \<and> lg (ext s') = lg (ext s) @ []"
      by (simp add: dequeue_def drain_events_def)
    then show ?thesis ..
  next
    case (Cons t q)
    with Suc.prems have
      "drain_runqueue n E (run_thunk E t (s\<lparr>runqueue := q\<rparr>)) (tr @ [EvDequeue RUNQ (Some t), EvRun t])
         = Inr (s', tr')"
      by (simp add: dequeue_def)
    from Suc.IH [OF this] obtain ts where
      "tr' = (tr @ [EvDequeue RUNQ (Some t), EvRun t]) @ drain_events RUNQ ts"
      "lg (ext s') = lg (ext (run_thunk E t (s\<lparr>runqueue := q\<rparr>))) @ ts"
      by blast
    then have "tr' = tr @ drain_events RUNQ (t # ts) \<and> lg (ext s') = lg (ext s) @ (t # ts)"
      by (simp add: drain_events_Cons run_thunk_def observes_apply [OF o])
    then show ?thesis ..
  qed
qed

lemma update_timer_log:
  assumes o: "observes E lg" and u: "update_timer E self s = (tu, s', tr)"
  shows "lg (ext s') = lg (ext s) \<and> applications tr = []"
proof -
  obtain nxt x1 where c: "timer_check E (ext s) = (nxt, x1)"
    by (cases "timer_check E (ext s)")
  obtain nw x2 where n: "now E x1 = (nw, x2)"
    by (cases "now E x1")
  from observes_timer_check [OF o c] observes_now [OF o n] u c n show ?thesis
    by (auto simp: update_timer_def Let_def set_cpu_timer_def observes_runloop_timer [OF o]
        split: if_splits)
qed

lemma kern_try_lock_ext: "kern_try_lock self s = Inr (b, s') \<Longrightarrow> ext s' = ext s"
  by (auto simp: kern_try_lock_def set_have_lock_def split: if_splits)

lemma kern_unlock_ext: "kern_unlock self s = Inr s' \<Longrightarrow> ext s' = ext s"
  by (auto simp: kern_unlock_def set_have_lock_def split: if_splits)

lemma locked_work_log:
  assumes o: "observes E lg" and w: "locked_work fuel E self s = Inr (tu, s', tr)"
  shows "lg (ext s') = lg (ext s) @ applications tr"
proof -
  obtain nw x2 where n: "now E (ext (set_cpu_state self cpu_kernel s)) = (nw, x2)"
    by (cases "now E (ext (set_cpu_state self cpu_kernel s))")
  let ?s3 = "timer_service E nw ((set_cpu_state self cpu_kernel s)\<lparr>ext := x2\<rparr>)"
  from w n obtain s4 tr4 where
    d: "drain_runqueue fuel E ?s3 [EvNow nw, EvTimerService nw] = Inr (s4, tr4)"
    by (auto simp: locked_work_def Let_def split: sum.splits)
  obtain tu' s6 tr6 where u: "update_timer E self (mm_service E s4) = (tu', s6, tr6)"
    by (cases "update_timer E self (mm_service E s4)")
  from w n d u have k: "kern_unlock self s6 = Inr s'"
    and r: "tr = tr4 @ [EvMmService] @ tr6 @ [EvUnlock]"
    by (auto simp: locked_work_def Let_def split: sum.splits)
  from observes_now [OF o n] have "lg x2 = lg (ext s)"
    by (simp add: set_cpu_state_def)
  then have a: "lg (ext ?s3) = lg (ext s)"
    by (simp add: observes_timer_service [OF o])
  from drain_runqueue_log [OF o d] obtain ts where
    t: "tr4 = [EvNow nw, EvTimerService nw] @ drain_events RUNQ ts"
    and l: "lg (ext s4) = lg (ext ?s3) @ ts"
    by blast
  from update_timer_log [OF o u] have
    m: "lg (ext s6) = lg (ext s4)" "applications tr6 = []"
    by (simp_all add: observes_mm_service [OF o])
  from kern_unlock_ext [OF k] a l m r t show ?thesis
    by simp
qed

lemma lock_phase_log:
  assumes o: "observes E lg" and l: "lock_phase fuel E self s = Inr (tu, s', tr)"
  shows "lg (ext s') = lg (ext s) @ applications tr"
proof -
  from l obtain b s1 where k: "kern_try_lock self s = Inr (b, s1)"
    by (auto simp: lock_phase_def split: sum.splits)
  show ?thesis
  proof (cases b)
    case True
    with l k obtain lk where w: "locked_work fuel E self s1 = Inr (tu, s', lk)"
      and t: "tr = EvTryLock True # lk"
      by (auto simp: lock_phase_def split: sum.splits)
    from locked_work_log [OF o w] kern_try_lock_ext [OF k] t show ?thesis
      by simp
  next
    case False
    with l k kern_try_lock_ext [OF k] show ?thesis
      by (auto simp: lock_phase_def)
  qed
qed

lemma runloop_to_unlock_log:
  assumes o: "observes E lg" and u: "runloop_to_unlock fuel E self s = Inr (tu, s3, tr)"
  shows "lg (ext s3) = lg (ext s) @ applications tr"
proof -
  obtain s0 tr0 where p: "sched_thread_pause E self s = (s0, tr0)"
    by (cases "sched_thread_pause E self s")
  from u p obtain s2 tr2 where
    d: "drain_bhqueue fuel E (set_cpu_state self cpu_kernel s0) tr0 = Inr (s2, tr2)"
    by (auto simp: runloop_to_unlock_def Let_def split: sum.splits)
  from u p d obtain tr3 where l: "lock_phase fuel E self s2 = Inr (tu, s3, tr3)"
    and t: "tr = tr2 @ tr3"
    by (auto simp: runloop_to_unlock_def Let_def split: sum.splits)
  from drain_bhqueue_log [OF o d] obtain bh where
    b: "tr2 = tr0 @ drain_events BHQ bh"
    "lg (ext s2) = lg (ext (set_cpu_state self cpu_kernel s0)) @ bh"
    by blast
  from sched_thread_pause_log [OF o p] lock_phase_log [OF o l] b t show ?thesis
    by (simp add: set_cpu_state_def)
qed

lemma queued_threads_set:
  assumes "c < n"
  shows "queued_threads n (set_thread_queue c q s) + mset (thread_queue (cpuinfo_from_id s c))
     = queued_threads n s + mset q"
proof -
  let ?f = "\<lambda>i. mset (thread_queue (cpuinfo_from_id s i))"
  let ?g = "\<lambda>i. mset (thread_queue (cpuinfo_from_id (set_thread_queue c q s) i))"
  from assms have c: "c \<in> {..<n}" by simp
  have r: "sum ?g ({..<n} - {c}) = sum ?f ({..<n} - {c})"
    by (rule sum.cong) (auto simp: set_thread_queue_def)
  have "sum ?g {..<n} = ?g c + sum ?g ({..<n} - {c})"
    using c by (intro sum.remove) simp_all
  moreover have "sum ?f {..<n} = ?f c + sum ?f ({..<n} - {c})"
    using c by (intro sum.remove) simp_all
  moreover have "?g c = mset q"
    by (simp add: set_thread_queue_def)
  ultimately show ?thesis
    by (simp add: queued_threads_def r)
qed

lemma queued_threads_cong:
  "cpuinfo_from_id s' = cpuinfo_from_id s \<Longrightarrow> queued_threads n s' = queued_threads n s"
  by (simp add: queued_threads_def)

lemma set_thread_queue_keeps:
  "ext (set_thread_queue c q s) = ext s"
  "total_processors (set_thread_queue c q s) = total_processors s"
  by (simp_all add: set_thread_queue_def)

lemma wakeup_cpu_keeps:
  "wakeup_cpu cpu s = Inr (s', ev) \<Longrightarrow>
     ext s' = ext s \<and> total_processors s' = total_processors s
     \<and> cpuinfo_from_id s' = cpuinfo_from_id s"
  by (auto simp: wakeup_cpu_def bitmap_test_and_set_atomic_def Let_def
      split: option.splits if_splits)

lemma to_self_step_keeps:
  assumes "to_self_step t cpu s = Inr (t', s', ev)"
  shows "ext s' = ext s \<and> total_processors s' = total_processors s
     \<and> (cpu < n \<longrightarrow> queued_threads n s' + mset (held t') = queued_threads n s + mset (held t))"
proof (cases t)
  case None
  show ?thesis
  proof (cases "thread_queue (cpuinfo_from_id s cpu)")
    case Nil
    with None assms show ?thesis
      by (auto simp: to_self_step_empty)
  next
    case (Cons y r)
    let ?s1 = "set_thread_queue cpu r s"
    have q: "cpu < n \<longrightarrow> queued_threads n ?s1 + {#y#} = queued_threads n s"
      using queued_threads_set [of cpu n r s] Cons by auto
    from None Cons assms have t': "t' = Some y"
      by (auto simp: to_self_step_def dequeue_def Let_def split: if_splits sum.splits)
    from None Cons assms have "s' = ?s1 \<or> (\<exists>ev2. wakeup_cpu cpu ?s1 = Inr (s', ev2))"
      by (auto simp: to_self_step_def dequeue_def Let_def split: if_splits sum.splits)
    then have "ext s' = ext ?s1 \<and> total_processors s' = total_processors ?s1
        \<and> queued_threads n s' = queued_threads n ?s1"
      by (auto dest!: wakeup_cpu_keeps intro: queued_threads_cong)
    with q t' None show ?thesis
      by (simp add: set_thread_queue_keeps)
  qed
next
  case (Some x)
  with assms have t': "t' = Some x"
    by (auto simp: to_self_step_def Let_def split: if_splits sum.splits)
  from Some assms have "s' = s \<or> (\<exists>ev2. wakeup_cpu cpu s = Inr (s', ev2))"
    by (auto simp: to_self_step_def Let_def split: if_splits sum.splits)
  then have "ext s' = ext s \<and> total_processors s' = total_processors s
      \<and> queued_threads n s' = queued_threads n s"
    by (auto dest!: wakeup_cpu_keeps intro: queued_threads_cong)
  with t' Some show ?thesis by simp
qed

lemma from_self_step_keeps:
  assumes "from_self_step self cpu s = Inr (s', ev)"
  shows "ext s' = ext s \<and> total_processors s' = total_processors s
     \<and> (cpu < n \<and> self < n \<longrightarrow> queued_threads n s' = queued_threads n s)"
proof (cases "thread_queue (cpuinfo_from_id s cpu)")
  case Nil
  show ?thesis
  proof (cases "thread_queue (cpuinfo_from_id s self)")
    case n: Nil
    with Nil assms show ?thesis
      by (auto simp: from_self_step_none)
  next
    case (Cons y r)
    with Nil have ne: "cpu \<noteq> self" by auto
    let ?s1 = "set_thread_queue self r s"
    let ?s2 = "set_thread_queue cpu [y] ?s1"
    have e: "thread_queue (cpuinfo_from_id ?s1 cpu) = []"
      using Nil ne by (simp add: set_thread_queue_def)
    from Nil Cons assms e obtain ev2 where w: "wakeup_cpu cpu ?s2 = Inr (s', ev2)"
      by (auto simp: from_self_step_def queue_empty_def dequeue_def enqueue_def
          queue_capacity_def Let_def split: sum.splits)
    have a: "self < n \<longrightarrow> queued_threads n ?s1 + {#y#} = queued_threads n s"
      using queued_threads_set [of self n r s] Cons by auto
    have b: "cpu < n \<longrightarrow> queued_threads n ?s2 = queued_threads n ?s1 + {#y#}"
      using queued_threads_set [of cpu n "[y]" ?s1] e by auto
    from wakeup_cpu_keeps [OF w] have "ext s' = ext ?s2 \<and> total_processors s' = total_processors ?s2
        \<and> queued_threads n s' = queued_threads n ?s2"
      by (auto intro: queued_threads_cong)
    with a b show ?thesis
      by (simp add: set_thread_queue_keeps)
  qed
next
  case (Cons y r)
  with assms have "wakeup_cpu cpu s = Inr (s', ev)"
    by (simp add: from_self_step_def queue_empty_def)
  from wakeup_cpu_keeps [OF this] show ?thesis
    by (auto intro: queued_threads_cong)
qed

lemma migrate_to_self_keeps:
  "migrate_to_self t first_cpu ncpus s tr = Inr (t', s', tr') \<Longrightarrow>
     ext s' = ext s \<and> total_processors s' = total_processors s
     \<and> (first_cpu + ncpus \<le> n \<longrightarrow>
          queued_threads n s' + mset (held t') = queued_threads n s + mset (held t))"
proof (induction t first_cpu ncpus s tr rule: migrate_to_self.induct)
  case (1 t first_cpu ncpus s tr)
  show ?case
  proof (cases "ncpus = 0")
    case True
    with "1.prems" show ?thesis by (simp add: migrate_to_self.simps)
  next
    case False
    with "1.prems" obtain b where m: "idle_cpu_mask s = Some b"
      by (auto simp: migrate_to_self.simps [of t first_cpu ncpus] split: option.splits)
    show ?thesis
    proof (cases "bitmap_range_get_first b first_cpu ncpus")
      case None
      with False m "1.prems" show ?thesis
        by (simp add: migrate_to_self.simps [of t first_cpu ncpus])
    next
      case (Some cpu)
      with False m "1.prems" obtain t1 s1 ev1 where
        st: "to_self_step t cpu s = Inr (t1, s1, ev1)"
        and rec: "migrate_to_self t1 (cpu + 1) (ncpus - (cpu - first_cpu + 1)) s1 (tr @ ev1)
                    = Inr (t', s', tr')"
        by (auto simp: migrate_to_self.simps [of t first_cpu ncpus] split: sum.splits)
      from range_first_Some [OF Some] have c: "first_cpu \<le> cpu" "cpu < first_cpu + ncpus"
        by simp_all
      then have le: "first_cpu + ncpus \<le> n \<longrightarrow>
          cpu < n \<and> cpu + 1 + (ncpus - (cpu - first_cpu + 1)) \<le> n"
        by arith
      from "1.IH" [OF False m Some st refl refl rec] to_self_step_keeps [OF st, of n] le
      show ?thesis by auto
    qed
  qed
qed

lemma migrate_from_self_keeps:
  "migrate_from_self self first_cpu ncpus s tr = Inr (s', tr') \<Longrightarrow>
     ext s' = ext s \<and> total_processors s' = total_processors s
     \<and> (first_cpu + ncpus \<le> n \<and> self < n \<longrightarrow> queued_threads n s' = queued_threads n s)"
proof (induction self first_cpu ncpus s tr rule: migrate_from_self.induct)
  case (1 self first_cpu ncpus s tr)
  show ?case
  proof (cases "ncpus = 0")
    case True
    with "1.prems" show ?thesis by (simp add: migrate_from_self.simps)
  next
    case False
    with "1.prems" obtain b where m: "idle_cpu_mask s = Some b"
      by (auto simp: migrate_from_self.simps [of self first_cpu ncpus] split: option.splits)
    show ?thesis
    proof (cases "bitmap_range_get_first b first_cpu ncpus")
      case None
      with False m "1.prems" show ?thesis
        by (simp add: migrate_from_self.simps [of self first_cpu ncpus])
    next
      case (Some cpu)
      with False m "1.prems" obtain s1 ev1 where
        st: "from_self_step self cpu s = Inr (s1, ev1)"
        and rec: "migrate_from_self self (cpu + 1) (ncpus - (cpu - first_cpu + 1)) s1 (tr @ ev1)
                    = Inr (s', tr')"
        by (auto simp: migrate_from_self.simps [of self first_cpu ncpus] split: sum.splits)
      from range_first_Some [OF Some] have c: "first_cpu \<le> cpu" "cpu < first_cpu + ncpus"
        by simp_all
      then have le: "first_cpu + ncpus \<le> n \<longrightarrow>
          cpu < n \<and> cpu + 1 + (ncpus - (cpu - first_cpu + 1)) \<le> n"
        by arith
      from "1.IH" [OF False m Some st refl rec] from_self_step_keeps [OF st, of n] le
      show ?thesis by auto
    qed
  qed
qed

lemma steal_busy_keeps:
  "steal_busy self cpu s tr = Inr (t', s', tr') \<Longrightarrow>
     ext s' = ext s \<and> total_processors s' = total_processors s
     \<and> (total_processors s \<le> n \<longrightarrow> queued_threads n s' + mset (held t') = queued_threads n s)"
proof (induction self cpu s tr rule: steal_busy.induct)
  case (1 self cpu s tr)
  let ?c = "if cpu = total_processors s then 0 else cpu"
  from "1.prems" have g: "\<not> (total_processors s \<le> self \<or> total_processors s < cpu)"
    by (auto simp: steal_busy.simps [of self cpu] split: if_splits)
  then have cn: "total_processors s \<le> n \<longrightarrow> ?c < n"
    by auto
  show ?case
  proof (cases "?c = self")
    case True
    with g "1.prems" show ?thesis
      by (simp add: steal_busy.simps [of self cpu])
  next
    case False
    show ?thesis
    proof (cases "state (cpuinfo_from_id s ?c) = cpu_user")
      case u: True
      show ?thesis
      proof (cases "thread_queue (cpuinfo_from_id s ?c)")
        case Nil
        with g False u "1.prems" have
          rec: "steal_busy self (?c + 1) s (tr @ [EvDequeue (TQ ?c) None]) = Inr (t', s', tr')"
          by (simp add: steal_busy.simps [of self cpu] dequeue_def)
        have dq: "dequeue (thread_queue (cpuinfo_from_id s ?c)) = (None, [])"
          using Nil by (simp add: dequeue_def)
        from "1.IH"(1) [OF g False u dq [symmetric] refl rec] show ?thesis .
      next
        case (Cons y r)
        with g False u "1.prems" have r: "t' = Some y" "s' = set_thread_queue ?c r s"
          by (auto simp: steal_busy.simps [of self cpu] dequeue_def)
        have "?c < n \<longrightarrow> queued_threads n (set_thread_queue ?c r s) + {#y#} = queued_threads n s"
          using queued_threads_set [of ?c n r s] Cons by auto
        with cn r show ?thesis
          by (simp add: set_thread_queue_keeps)
      qed
    next
      case nu: False
      with g False "1.prems" have rec: "steal_busy self (?c + 1) s tr = Inr (t', s', tr')"
        by (simp add: steal_busy.simps [of self cpu])
      from "1.IH"(2) [OF g False nu rec] show ?thesis .
    qed
  qed
qed

lemma select_thread_keeps:
  assumes "select_thread self s = Inr (t, s', tr)"
  shows "ext s' = ext s
     \<and> (self < n \<and> total_processors s \<le> n \<longrightarrow>
          queued_threads n s' + mset (held t) = queued_threads n s)"
proof (cases "thread_queue (cpuinfo_from_id s self)")
  case Nil
  let ?tr0 = "[EvDequeue (TQ self) None]"
  from Nil assms obtain t1 s1 tr1 where
    a: "(if self + 1 < total_processors s
         then migrate_to_self None (self + 1) (total_processors s - self - 1) s ?tr0
         else Inr (None, s, ?tr0)) = Inr (t1, s1, tr1)"
    by (auto simp: select_thread_def dequeue_def Let_def split: sum.splits)
  from Nil assms a obtain t2 s2 tr2 where
    b: "(if 0 < self then migrate_to_self t1 0 self s1 tr1 else Inr (t1, s1, tr1))
          = Inr (t2, s2, tr2)"
    by (auto simp: select_thread_def dequeue_def Let_def split: sum.splits)
  from Nil assms a b have
    c: "(if t2 = None then steal_busy self (self + 1) s2 tr2 else Inr (t2, s2, tr2))
          = Inr (t, s', tr)"
    by (auto simp: select_thread_def dequeue_def Let_def split: sum.splits)
  from a have e1: "ext s1 = ext s" "total_processors s1 = total_processors s"
    "self < n \<and> total_processors s \<le> n \<longrightarrow> queued_threads n s1 + mset (held t1) = queued_threads n s"
    using migrate_to_self_keeps [of None "self + 1" "total_processors s - self - 1" s ?tr0 t1 s1 tr1 n]
    by (auto split: if_splits)
  from b have e2: "ext s2 = ext s1" "total_processors s2 = total_processors s1"
    "self < n \<longrightarrow> queued_threads n s2 + mset (held t2) = queued_threads n s1 + mset (held t1)"
    using migrate_to_self_keeps [of t1 0 self s1 tr1 t2 s2 tr2 n]
    by (auto split: if_splits)
  from c have e3: "ext s' = ext s2"
    "total_processors s2 \<le> n \<longrightarrow> queued_threads n s' + mset (held t) = queued_threads n s2 + mset (held t2)"
    using steal_busy_keeps [of self "self + 1" s2 tr2 t s' tr n]
    by (auto split: if_splits)
  from e1 e2 e3 show ?thesis by auto
next
  case (Cons y r)
  let ?s0 = "set_thread_queue self r s"
  let ?tr0 = "[EvDequeue (TQ self) (Some y)]"
  from Cons assms obtain s1 tr1 where
    a: "(if self + 1 < total_processors ?s0
         then migrate_from_self self (self + 1) (total_processors ?s0 - self - 1) ?s0 ?tr0
         else Inr (?s0, ?tr0)) = Inr (s1, tr1)"
    by (auto simp: select_thread_def dequeue_def Let_def split: sum.splits)
  from Cons assms a obtain s2 tr2 where
    b: "(if 0 < self then migrate_from_self self 0 self s1 tr1 else Inr (s1, tr1)) = Inr (s2, tr2)"
    by (auto simp: select_thread_def dequeue_def Let_def split: sum.splits)
  from Cons assms a b have c: "t = Some y" "s' = s2"
    by (auto simp: select_thread_def dequeue_def Let_def split: sum.splits)
  have e0: "self < n \<longrightarrow> queued_threads n ?s0 + {#y#} = queued_threads n s"
    using queued_threads_set [of self n r s] Cons by auto
  from a have e1: "ext s1 = ext s"
    "self < n \<and> total_processors s \<le> n \<longrightarrow> queued_threads n s1 = queued_threads n ?s0"
    using migrate_from_self_keeps [of self "self + 1" "total_processors ?s0 - self - 1" ?s0 ?tr0 s1 tr1 n]
    by (auto simp: set_thread_queue_keeps split: if_splits)
  from b have e2: "ext s2 = ext s1"
    "self < n \<longrightarrow> queued_threads n s2 = queued_threads n s1"
    using migrate_from_self_keeps [of self 0 self s1 tr1 s2 tr2 n]
    by (auto split: if_splits)
  from c e0 e1 e2 show ?thesis by auto
qed

lemma thread_timer_log:
  assumes o: "observes E lg" and t: "thread_timer E self s = (s', tr)"
  shows "lg (ext s') = lg (ext s) \<and> applications tr = []"
proof -
  obtain here x1 where n: "now E (ext s) = (here, x1)"
    by (cases "now E (ext s)")
  from observes_now [OF o n] t n show ?thesis
    by (auto simp: thread_timer_def Let_def set_cpu_timer_def observes_runloop_timer [OF o]
        split: if_splits)
qed

lemma run_thread_log:
  assumes o: "observes E lg" and r: "run_thread E self tu t s = (s', tr)"
  shows "lg (ext s') = lg (ext s) @ applications tr"
proof (cases t)
  case None
  with r show ?thesis by (simp add: run_thread_def)
next
  case (Some x)
  obtain s1 tr1 where t: "thread_timer E self s = (s1, tr1)"
    by (cases "thread_timer E self s")
  from thread_timer_log [OF o t] Some r t show ?thesis
    by (auto simp: run_thread_def run_thunk_def Let_def observes_apply [OF o] split: if_splits)
qed

lemma thread_phase_log:
  assumes o: "observes E lg" and p: "thread_phase E self tu s = Inr (s', tr)"
  shows "lg (ext s') = lg (ext s) @ applications tr"
proof (cases "shutting_down s")
  case True
  with p show ?thesis by (simp add: thread_phase_def)
next
  case False
  with p obtain t s1 tr1 where sel: "select_thread self s = Inr (t, s1, tr1)"
    by (auto simp: thread_phase_def split: sum.splits)
  obtain s2 tr2 where r: "run_thread E self tu t s1 = (s2, tr2)"
    by (cases "run_thread E self tu t s1")
  from False p sel r have tr: "tr = tr1 @ tr2" "s' = s2"
    by (simp_all add: thread_phase_def)
  from select_thread_events [OF sel] have "applications tr1 = []"
    by (simp add: thread_events_applications)
  with select_thread_keeps [OF sel, of 0] run_thread_log [OF o r] tr show ?thesis
    by simp
qed

lemma kernel_sleep_enter_ext: "ext (kernel_sleep_enter self s) = ext s"
  by (simp add: kernel_sleep_enter_def set_cpu_state_def Let_def split: option.splits)

lemma runloop_internal_log:
  assumes o: "observes E lg" and r: "runloop_internal fuel E self s = Inr (s', tr)"
  shows "lg (ext s') = lg (ext s) @ applications tr"
proof -
  from r obtain tu s3 tr3 where u: "runloop_to_unlock fuel E self s = Inr (tu, s3, tr3)"
    by (auto simp: runloop_internal_def split: sum.splits)
  from r u obtain s4 tr4 where p: "thread_phase E self tu s3 = Inr (s4, tr4)"
    by (auto simp: runloop_internal_def split: sum.splits)
  obtain s5 tr5 where q: "sched_thread_pause E self s4 = (s5, tr5)"
    by (cases "sched_thread_pause E self s4")
  from r u p q have t: "tr = tr3 @ tr4 @ tr5 @ [EvSleep]" "s' = kernel_sleep_enter self s5"
    by (simp_all add: runloop_internal_def)
  from runloop_to_unlock_log [OF o u] thread_phase_log [OF o p] sched_thread_pause_log [OF o q] t
  show ?thesis
    by (simp add: kernel_sleep_enter_ext)
qed

text \<open>
  C1. In a pass that reaches \<open>kernel_sleep\<close>, the tasks the pass dequeued (from
  \<open>bhqueue\<close>, \<open>runqueue\<close> or any thread queue) are, counted with multiplicity,
  exactly the tasks it handed to \<open>run_thunk\<close> together with the tasks it enqueued
  again: each is consumed once, run or moved, not both and not dropped. Every
  \<open>enqueue\<close> of the pass succeeds and goes to the thread queue of another CPU.

  The calls counted are the calls made. In whatever way the kernel logs the closures
  applied to it, the log at the end of the pass is the log at its start followed by
  the closures of the trace in their order, once for each \<open>run_thunk\<close> and each pause
  written there: as many applications as the trace has, of these tasks, and no other.
  And the one step of the pass that touches thread queues, the choice of a thread made
  after \<open>kern_unlock\<close> when \<open>shutting_down\<close> is clear, loses and copies nothing: the
  threads queued on all CPUs after it, together with the thread it holds, are the
  threads queued before it, and the thread it holds is the one thread the rest of the
  pass runs.
\<close>

theorem runloop_consumes_once:
  assumes "runloop_internal fuel E self s = Inr (s', tr)"
  shows "mset (dequeued tr) = mset (applied tr) + mset (requeued tr)
    \<and> list_all (good_enqueue self) tr
    \<and> (\<forall>lg. observes E lg \<longrightarrow> lg (ext s') = lg (ext s) @ applications tr)
    \<and> mset (applications tr) = mset (paused tr) + mset (applied tr)
    \<and> (\<exists>tu mid pre post. runloop_to_unlock fuel E self s = Inr (tu, mid, pre)
         \<and> tr = pre @ post \<and> dequeued pre = applied pre \<and> requeued pre = []
         \<and> (if shutting_down mid then dequeued post = [] \<and> applied post = []
             else \<exists>t chosen ev. select_thread self mid = Inr (t, chosen, ev)
                \<and> applied post = held t \<and> dequeued post = held t @ requeued post
                \<and> (\<forall>n. self < n \<and> total_processors mid \<le> n \<longrightarrow>
                      queued_threads n chosen + mset (held t) = queued_threads n mid)))"
proof -
  from assms obtain tu s3 tr3 where u: "runloop_to_unlock fuel E self s = Inr (tu, s3, tr3)"
    by (auto simp: runloop_internal_def split: sum.splits)
  from assms u obtain s4 tr4 where p: "thread_phase E self tu s3 = Inr (s4, tr4)"
    by (auto simp: runloop_internal_def split: sum.splits)
  obtain s5 tr5 where q: "sched_thread_pause E self s4 = (s5, tr5)"
    by (cases "sched_thread_pause E self s4")
  let ?post = "tr4 @ tr5 @ [EvSleep]"
  from assms u p q have t: "tr = tr3 @ ?post"
    by (simp add: runloop_internal_def)
  from runloop_to_unlock_events [OF u] obtain pre bh b lk where
    e: "tr3 = pre @ drain_events BHQ bh @ [EvTryLock b] @ lk" "list_all pause_event pre"
    and k: "if b then \<exists>nw rq tm. lk = [EvNow nw, EvTimerService nw] @ drain_events RUNQ rq
                      @ [EvMmService] @ tm @ [EvUnlock]
                    \<and> ((\<not> tu \<and> tm = []) \<or> (\<exists>nw' timeout. tu \<and> tm = [EvNow nw', EvRunloopTimer timeout]))
        else lk = [] \<and> \<not> tu"
    by blast
  from k have lk: "dequeued lk = applied lk \<and> requeued lk = [] \<and> list_all (good_enqueue self) lk"
    by (auto split: if_splits)
  from pause_events_balance [OF e(2), of self] e(1) lk
  have pre: "dequeued tr3 = applied tr3" "requeued tr3 = []" "list_all (good_enqueue self) tr3"
    by simp_all
  from thread_phase_events [OF p] sched_thread_pause_events [OF q, of self]
  have post: "dequeued ?post = applied ?post @ requeued ?post" "list_all (good_enqueue self) ?post"
    and q5: "dequeued tr5 = []" "applied tr5 = []" "requeued tr5 = []"
    by simp_all
  from pre post t have a: "mset (dequeued tr) = mset (applied tr) + mset (requeued tr)"
    and b: "list_all (good_enqueue self) tr"
    by simp_all
  have c: "\<forall>lg. observes E lg \<longrightarrow> lg (ext s') = lg (ext s) @ applications tr"
    using runloop_internal_log [OF _ assms] by blast
  have d: "mset (applications tr) = mset (paused tr) + mset (applied tr)"
    by (rule applications_split)
  have f: "if shutting_down s3 then dequeued ?post = [] \<and> applied ?post = []
     else \<exists>t chosen ev. select_thread self s3 = Inr (t, chosen, ev)
        \<and> applied ?post = held t \<and> dequeued ?post = held t @ requeued ?post
        \<and> (\<forall>n. self < n \<and> total_processors s3 \<le> n \<longrightarrow>
              queued_threads n chosen + mset (held t) = queued_threads n s3)"
  proof (cases "shutting_down s3")
    case True
    with p have "tr4 = []" by (simp add: thread_phase_def)
    with True q5 show ?thesis by simp
  next
    case False
    with p obtain t0 s1 tr1 where sel: "select_thread self s3 = Inr (t0, s1, tr1)"
      by (auto simp: thread_phase_def split: sum.splits)
    obtain s2 tr2 where r: "run_thread E self tu t0 s1 = (s2, tr2)"
      by (cases "run_thread E self tu t0 s1")
    from False p sel r have tr4: "tr4 = tr1 @ tr2"
      by (simp add: thread_phase_def)
    from select_thread_events [OF sel] have s1: "applied tr1 = []"
      "dequeued tr1 = held t0 @ requeued tr1"
      by (simp_all add: thread_events_applied)
    from run_thread_events [OF r, of self] have s2: "applied tr2 = held t0" "dequeued tr2 = []"
      "requeued tr2 = []"
      by simp_all
    have "\<forall>n. self < n \<and> total_processors s3 \<le> n \<longrightarrow>
              queued_threads n s1 + mset (held t0) = queued_threads n s3"
      using select_thread_keeps [OF sel] by blast
    with sel s1 s2 q5 tr4 have "select_thread self s3 = Inr (t0, s1, tr1)
        \<and> applied ?post = held t0 \<and> dequeued ?post = held t0 @ requeued ?post
        \<and> (\<forall>n. self < n \<and> total_processors s3 \<le> n \<longrightarrow>
              queued_threads n s1 + mset (held t0) = queued_threads n s3)"
      by simp
    with False show ?thesis by auto
  qed
  from u t pre(1,2) f have g: "\<exists>tu mid pre post. runloop_to_unlock fuel E self s = Inr (tu, mid, pre)
         \<and> tr = pre @ post \<and> dequeued pre = applied pre \<and> requeued pre = []
         \<and> (if shutting_down mid then dequeued post = [] \<and> applied post = []
             else \<exists>t chosen ev. select_thread self mid = Inr (t, chosen, ev)
                \<and> applied post = held t \<and> dequeued post = held t @ requeued post
                \<and> (\<forall>n. self < n \<and> total_processors mid \<le> n \<longrightarrow>
                      queued_threads n chosen + mset (held t) = queued_threads n mid))"
    by (intro exI [of _ tu] exI [of _ s3] exI [of _ tr3] exI [of _ ?post] conjI)
  from a b c d g show ?thesis
    by (intro conjI)
qed

lemma lessThan_three: "{..<(3::nat)} = {0, 1, 2}"
  by auto

lemma mixed_demo_pass:
  "case runloop_internal 5 (logging_env 50) 0 (logged mixed_demo) of
     Inl e \<Rightarrow> False
   | Inr (s', tr) \<Rightarrow>
       tr = [EvPause 42, EvDequeue BHQ (Some 1), EvRun 1, EvDequeue BHQ (Some 2), EvRun 2,
             EvDequeue BHQ None, EvTryLock True, EvNow 10, EvTimerService 10,
             EvDequeue RUNQ (Some 3), EvRun 3, EvDequeue RUNQ None, EvMmService,
             EvNow 11, EvRunloopTimer 39, EvUnlock,
             EvDequeue (TQ 0) (Some 7), EvDequeue (TQ 0) (Some 8), EvEnqueue (TQ 1) 8 True,
             EvWakeup 1, EvIpi 1, EvWakeup 2, EvIpi 2, EvRun 7, EvPause 42, EvSleep]
       \<and> queued_threads 3 s' = {#8, 9#}"
  by (simp add: mixed_demo_def push_demo_def logged_def logging_env_def queued_threads_def
      lessThan_three pass_eval)

theorem runloop_consumes_once_witness:
  "observes (logging_env 50) snd
   \<and> queued_threads 3 (logged mixed_demo) = {#7, 8, 9#}
   \<and> (\<exists>s' tr. runloop_internal 5 (logging_env 50) 0 (logged mixed_demo) = Inr (s', tr)
        \<and> dequeued tr = [1, 2, 3, 7, 8] \<and> applied tr = [1, 2, 3, 7] \<and> requeued tr = [8]
        \<and> mset (dequeued tr) = mset (applied tr) + mset (requeued tr)
        \<and> list_all (good_enqueue 0) tr
        \<and> applications tr = [42, 1, 2, 3, 7, 42]
        \<and> snd (ext s') = [42, 1, 2, 3, 7, 42]
        \<and> queued_threads 3 s' = {#8, 9#})"
proof -
  have o: "observes (logging_env 50) snd"
    by (simp add: observes_def logging_env_def)
  have q: "queued_threads 3 (logged mixed_demo) = {#7, 8, 9#}"
    by (simp add: mixed_demo_def push_demo_def logged_def queued_threads_def lessThan_three
        queues_sched_def plain_sched_def fresh_cpu_def)
  from mixed_demo_pass obtain s' where
    r: "runloop_internal 5 (logging_env 50) 0 (logged mixed_demo) = Inr (s',
       [EvPause 42, EvDequeue BHQ (Some 1), EvRun 1, EvDequeue BHQ (Some 2), EvRun 2,
        EvDequeue BHQ None, EvTryLock True, EvNow 10, EvTimerService 10,
        EvDequeue RUNQ (Some 3), EvRun 3, EvDequeue RUNQ None, EvMmService,
        EvNow 11, EvRunloopTimer 39, EvUnlock,
        EvDequeue (TQ 0) (Some 7), EvDequeue (TQ 0) (Some 8), EvEnqueue (TQ 1) 8 True,
        EvWakeup 1, EvIpi 1, EvWakeup 2, EvIpi 2, EvRun 7, EvPause 42, EvSleep])"
    and w: "queued_threads 3 s' = {#8, 9#}"
    by (cases "runloop_internal 5 (logging_env 50) 0 (logged mixed_demo)") auto
  note c = runloop_consumes_once [OF r]
  from c have b: "mset (dequeued
       [EvPause 42, EvDequeue BHQ (Some 1), EvRun 1, EvDequeue BHQ (Some 2), EvRun 2,
        EvDequeue BHQ None, EvTryLock True, EvNow 10, EvTimerService 10,
        EvDequeue RUNQ (Some 3), EvRun 3, EvDequeue RUNQ None, EvMmService,
        EvNow 11, EvRunloopTimer 39, EvUnlock,
        EvDequeue (TQ 0) (Some 7), EvDequeue (TQ 0) (Some 8), EvEnqueue (TQ 1) 8 True,
        EvWakeup 1, EvIpi 1, EvWakeup 2, EvIpi 2, EvRun 7, EvPause 42, EvSleep])
     = mset (applied
       [EvPause 42, EvDequeue BHQ (Some 1), EvRun 1, EvDequeue BHQ (Some 2), EvRun 2,
        EvDequeue BHQ None, EvTryLock True, EvNow 10, EvTimerService 10,
        EvDequeue RUNQ (Some 3), EvRun 3, EvDequeue RUNQ None, EvMmService,
        EvNow 11, EvRunloopTimer 39, EvUnlock,
        EvDequeue (TQ 0) (Some 7), EvDequeue (TQ 0) (Some 8), EvEnqueue (TQ 1) 8 True,
        EvWakeup 1, EvIpi 1, EvWakeup 2, EvIpi 2, EvRun 7, EvPause 42, EvSleep])
       + mset (requeued
       [EvPause 42, EvDequeue BHQ (Some 1), EvRun 1, EvDequeue BHQ (Some 2), EvRun 2,
        EvDequeue BHQ None, EvTryLock True, EvNow 10, EvTimerService 10,
        EvDequeue RUNQ (Some 3), EvRun 3, EvDequeue RUNQ None, EvMmService,
        EvNow 11, EvRunloopTimer 39, EvUnlock,
        EvDequeue (TQ 0) (Some 7), EvDequeue (TQ 0) (Some 8), EvEnqueue (TQ 1) 8 True,
        EvWakeup 1, EvIpi 1, EvWakeup 2, EvIpi 2, EvRun 7, EvPause 42, EvSleep])"
    by blast
  from c o have "snd (ext s') = snd (ext (logged mixed_demo)) @ applications
       [EvPause 42, EvDequeue BHQ (Some 1), EvRun 1, EvDequeue BHQ (Some 2), EvRun 2,
        EvDequeue BHQ None, EvTryLock True, EvNow 10, EvTimerService 10,
        EvDequeue RUNQ (Some 3), EvRun 3, EvDequeue RUNQ None, EvMmService,
        EvNow 11, EvRunloopTimer 39, EvUnlock,
        EvDequeue (TQ 0) (Some 7), EvDequeue (TQ 0) (Some 8), EvEnqueue (TQ 1) 8 True,
        EvWakeup 1, EvIpi 1, EvWakeup 2, EvIpi 2, EvRun 7, EvPause 42, EvSleep]"
    by blast
  then have l: "snd (ext s') = [42, 1, 2, 3, 7, 42]"
    by (simp add: logged_def)
  from o q r w b l show ?thesis
    by (intro conjI exI [of _ s'] exI [of _
       "[EvPause 42, EvDequeue BHQ (Some 1), EvRun 1, EvDequeue BHQ (Some 2), EvRun 2,
        EvDequeue BHQ None, EvTryLock True, EvNow 10, EvTimerService 10,
        EvDequeue RUNQ (Some 3), EvRun 3, EvDequeue RUNQ None, EvMmService,
        EvNow 11, EvRunloopTimer 39, EvUnlock,
        EvDequeue (TQ 0) (Some 7), EvDequeue (TQ 0) (Some 8), EvEnqueue (TQ 1) 8 True,
        EvWakeup 1, EvIpi 1, EvWakeup 2, EvIpi 2, EvRun 7, EvPause 42, EvSleep]"]) simp_all
qed

subsection \<open>A pass after shutdown\<close>

lemma drain_bhqueue_shutdown:
  assumes "\<And>t s. shutting_down s \<Longrightarrow> shutting_down (apply_thunk E t s)"
  shows "shutting_down s \<Longrightarrow> drain_bhqueue n E s tr = Inr (s', tr') \<Longrightarrow> shutting_down s'"
proof (induction n arbitrary: s tr)
  case 0
  then show ?case by simp
next
  case (Suc n)
  show ?case
  proof (cases "bhqueue s")
    case Nil
    with Suc.prems show ?thesis by (simp add: dequeue_def)
  next
    case (Cons t q)
    with Suc.prems have r:
      "drain_bhqueue n E (run_thunk E t (s\<lparr>bhqueue := q\<rparr>)) (tr @ [EvDequeue BHQ (Some t), EvRun t])
         = Inr (s', tr')"
      by (simp add: dequeue_def)
    have "shutting_down (run_thunk E t (s\<lparr>bhqueue := q\<rparr>))"
      using Suc.prems(1) by (simp add: run_thunk_def assms)
    from Suc.IH [OF this r] show ?thesis .
  qed
qed

lemma drain_runqueue_shutdown:
  assumes "\<And>t s. shutting_down s \<Longrightarrow> shutting_down (apply_thunk E t s)"
  shows "shutting_down s \<Longrightarrow> drain_runqueue n E s tr = Inr (s', tr') \<Longrightarrow> shutting_down s'"
proof (induction n arbitrary: s tr)
  case 0
  then show ?case by simp
next
  case (Suc n)
  show ?case
  proof (cases "runqueue s")
    case Nil
    with Suc.prems show ?thesis by (simp add: dequeue_def)
  next
    case (Cons t q)
    with Suc.prems have r:
      "drain_runqueue n E (run_thunk E t (s\<lparr>runqueue := q\<rparr>)) (tr @ [EvDequeue RUNQ (Some t), EvRun t])
         = Inr (s', tr')"
      by (simp add: dequeue_def)
    have "shutting_down (run_thunk E t (s\<lparr>runqueue := q\<rparr>))"
      using Suc.prems(1) by (simp add: run_thunk_def assms)
    from Suc.IH [OF this r] show ?thesis .
  qed
qed

lemma update_timer_shutdown:
  "update_timer E self s = (tu, s', tr) \<Longrightarrow> shutting_down s' = shutting_down s"
  by (auto simp: update_timer_def set_cpu_timer_def Let_def split: prod.splits if_splits)

lemma kern_unlock_shutdown:
  "kern_unlock self s = Inr s' \<Longrightarrow> shutting_down s' = shutting_down s"
  by (auto simp: kern_unlock_def set_have_lock_def split: if_splits)

lemma kern_try_lock_shutdown:
  "kern_try_lock self s = Inr (b, s') \<Longrightarrow> shutting_down s' = shutting_down s"
  by (auto simp: kern_try_lock_def set_have_lock_def split: if_splits)

lemma locked_work_shutdown:
  assumes a: "\<And>t s. shutting_down s \<Longrightarrow> shutting_down (apply_thunk E t s)"
    and b: "\<And>t s. shutting_down s \<Longrightarrow> shutting_down (timer_service E t s)"
    and c: "\<And>s. shutting_down s \<Longrightarrow> shutting_down (mm_service E s)"
    and s: "shutting_down s"
    and w: "locked_work fuel E self s = Inr (tu, s', tr)"
  shows "shutting_down s'"
proof -
  obtain nw x2 where n: "now E (ext (set_cpu_state self cpu_kernel s)) = (nw, x2)"
    by (cases "now E (ext (set_cpu_state self cpu_kernel s))")
  let ?s3 = "timer_service E nw ((set_cpu_state self cpu_kernel s)\<lparr>ext := x2\<rparr>)"
  from w n obtain s4 tr4 where
    d: "drain_runqueue fuel E ?s3 [EvNow nw, EvTimerService nw] = Inr (s4, tr4)"
    by (auto simp: locked_work_def Let_def split: sum.splits)
  obtain tu' s6 tr6 where u: "update_timer E self (mm_service E s4) = (tu', s6, tr6)"
    by (cases "update_timer E self (mm_service E s4)")
  from w n d u have k: "kern_unlock self s6 = Inr s'"
    by (auto simp: locked_work_def Let_def split: sum.splits)
  have "shutting_down ?s3"
    using s by (intro b) (simp add: set_cpu_state_def)
  from drain_runqueue_shutdown [OF a this d] have "shutting_down s4" .
  then have "shutting_down (mm_service E s4)" by (rule c)
  with update_timer_shutdown [OF u] kern_unlock_shutdown [OF k] show ?thesis by simp
qed

lemma runloop_to_unlock_shutdown:
  assumes a: "\<And>t s. shutting_down s \<Longrightarrow> shutting_down (apply_thunk E t s)"
    and b: "\<And>t s. shutting_down s \<Longrightarrow> shutting_down (timer_service E t s)"
    and c: "\<And>s. shutting_down s \<Longrightarrow> shutting_down (mm_service E s)"
    and s: "shutting_down s"
    and u: "runloop_to_unlock fuel E self s = Inr (tu, s3, tr)"
  shows "shutting_down s3"
proof -
  from u s obtain s2 tr2 where
    d: "drain_bhqueue fuel E (set_cpu_state self cpu_kernel s) [] = Inr (s2, tr2)"
    by (auto simp: runloop_to_unlock_def sched_thread_pause_shutdown split: sum.splits)
  from u s d obtain tr3 where l: "lock_phase fuel E self s2 = Inr (tu, s3, tr3)"
    by (auto simp: runloop_to_unlock_def sched_thread_pause_shutdown split: sum.splits)
  have "shutting_down (set_cpu_state self cpu_kernel s)"
    using s by (simp add: set_cpu_state_def)
  from drain_bhqueue_shutdown [OF a this d] have s2: "shutting_down s2" .
  from l obtain bb s1 where k: "kern_try_lock self s2 = Inr (bb, s1)"
    by (auto simp: lock_phase_def split: sum.splits)
  from kern_try_lock_shutdown [OF k] s2 have s1: "shutting_down s1" by simp
  show ?thesis
  proof (cases bb)
    case True
    with l k obtain lk where "locked_work fuel E self s1 = Inr (tu, s3, lk)"
      by (auto simp: lock_phase_def split: sum.splits)
    from locked_work_shutdown [OF a b c s1 this] show ?thesis .
  next
    case False
    with l k s1 show ?thesis by (auto simp: lock_phase_def)
  qed
qed

lemma halting_drain_events:
  "q = BHQ \<or> q = RUNQ \<Longrightarrow> list_all halting_event (drain_events q ts)"
  by (induction ts) (auto simp: drain_events_def halting_event_def)

lemma halting_timer_events: "list_all timer_event tm \<Longrightarrow> list_all halting_event tm"
proof (induction tm)
  case Nil
  then show ?case by simp
next
  case (Cons e tm)
  then show ?case by (cases e rule: timer_event.cases) (simp_all add: halting_event_def)
qed

text \<open>
  C9, as the code has it. The pass reads \<open>shutting_down\<close> anew at each of its tests
  (lines 104 and 218), after closures have run, so what the flag was at entry decides
  nothing by itself: the example after the theorem has a bottom half that clears it.
  Let \<open>shutting_down\<close> be set when the pass begins, and let the closures and
  services of the kernel never clear it. Then the pass does nothing after the work
  under the kernel lock but enter \<open>kernel_sleep\<close>: its result is that of the part up
  to \<open>kern_unlock\<close>, followed by the entry into sleep. When it gets there, the CPU is
  idle and the calls of the pass are the drain of \<open>bhqueue\<close>, the attempt on the lock
  and, if that succeeded, the work under it: no \<open>dequeue\<close> or \<open>enqueue\<close> on a
  thread queue, no \<open>wakeup_cpu\<close>, no IPI and no pause closure.
\<close>

theorem shutdown_pass_sleeps:
  assumes "shutting_down s"
    and a: "\<And>t s. shutting_down s \<Longrightarrow> shutting_down (apply_thunk E t s)"
    and b: "\<And>t s. shutting_down s \<Longrightarrow> shutting_down (timer_service E t s)"
    and c: "\<And>s. shutting_down s \<Longrightarrow> shutting_down (mm_service E s)"
  shows "runloop_internal fuel E self s =
      (case runloop_to_unlock fuel E self s of
         Inl e \<Rightarrow> Inl e
       | Inr (tu, s3, tr3) \<Rightarrow> Inr (kernel_sleep_enter self s3, tr3 @ [EvSleep]))
    \<and> (\<forall>s' tr. runloop_internal fuel E self s = Inr (s', tr) \<longrightarrow>
          state (cpuinfo_from_id s' self) = cpu_idle
          \<and> list_all halting_event tr
          \<and> (\<exists>bh b lk. tr = drain_events BHQ bh @ [EvTryLock b] @ lk @ [EvSleep]
                \<and> (if b then \<exists>nw rq tm. lk = [EvNow nw, EvTimerService nw]
                                @ drain_events RUNQ rq @ [EvMmService] @ tm @ [EvUnlock]
                              \<and> list_all timer_event tm
                    else lk = [])))"
proof -
  have eq: "runloop_internal fuel E self s =
      (case runloop_to_unlock fuel E self s of
         Inl e \<Rightarrow> Inl e
       | Inr (tu, s3, tr3) \<Rightarrow> Inr (kernel_sleep_enter self s3, tr3 @ [EvSleep]))"
  proof (cases "runloop_to_unlock fuel E self s")
    case (Inl e)
    then show ?thesis by (simp add: runloop_internal_def)
  next
    case (Inr r)
    obtain tu s3 tr3 where r: "r = (tu, s3, tr3)" by (cases r)
    from runloop_to_unlock_shutdown [OF a b c assms(1)] Inr r have "shutting_down s3"
      by simp
    with Inr r show ?thesis
      by (simp add: runloop_internal_def thread_phase_def sched_thread_pause_shutdown)
  qed
  have "state (cpuinfo_from_id s' self) = cpu_idle
          \<and> list_all halting_event tr
          \<and> (\<exists>bh b lk. tr = drain_events BHQ bh @ [EvTryLock b] @ lk @ [EvSleep]
                \<and> (if b then \<exists>nw rq tm. lk = [EvNow nw, EvTimerService nw]
                                @ drain_events RUNQ rq @ [EvMmService] @ tm @ [EvUnlock]
                              \<and> list_all timer_event tm
                    else lk = []))"
    if run: "runloop_internal fuel E self s = Inr (s', tr)" for s' tr
  proof -
    from run eq obtain tu s3 tr3 where u: "runloop_to_unlock fuel E self s = Inr (tu, s3, tr3)"
      and s': "s' = kernel_sleep_enter self s3" and tr: "tr = tr3 @ [EvSleep]"
      by (auto split: sum.splits)
    from runloop_to_unlock_events [OF u] assms(1) obtain bh bb lk where
      e: "tr3 = drain_events BHQ bh @ [EvTryLock bb] @ lk"
      and k: "if bb then \<exists>nw rq tm. lk = [EvNow nw, EvTimerService nw] @ drain_events RUNQ rq
                      @ [EvMmService] @ tm @ [EvUnlock]
                    \<and> ((\<not> tu \<and> tm = []) \<or> (\<exists>nw' timeout. tu \<and> tm = [EvNow nw', EvRunloopTimer timeout]))
        else lk = [] \<and> \<not> tu"
      by (auto simp: sched_thread_pause_shutdown)
    have k': "if bb then \<exists>nw rq tm. lk = [EvNow nw, EvTimerService nw] @ drain_events RUNQ rq
                      @ [EvMmService] @ tm @ [EvUnlock] \<and> list_all timer_event tm
        else lk = []"
    proof (cases bb)
      case True
      with k obtain nw rq tm where
        lk: "lk = [EvNow nw, EvTimerService nw] @ drain_events RUNQ rq @ [EvMmService] @ tm @ [EvUnlock]"
        and tm: "(\<not> tu \<and> tm = []) \<or> (\<exists>nw' timeout. tu \<and> tm = [EvNow nw', EvRunloopTimer timeout])"
        by auto
      from tm have "list_all timer_event tm" by auto
      with lk True show ?thesis by auto
    next
      case False
      with k show ?thesis by simp
    qed
    have h: "list_all halting_event lk"
    proof (cases bb)
      case True
      with k' obtain nw rq tm where
        "lk = [EvNow nw, EvTimerService nw] @ drain_events RUNQ rq @ [EvMmService] @ tm @ [EvUnlock]"
        "list_all timer_event tm"
        by auto
      then show ?thesis
        by (simp add: halting_drain_events halting_timer_events) (simp add: halting_event_def)
    next
      case False
      with k' show ?thesis by simp
    qed
    have "list_all halting_event tr"
      using h e tr by (simp add: halting_drain_events) (simp add: halting_event_def)
    moreover have "state (cpuinfo_from_id s' self) = cpu_idle"
      using s' by (simp add: kernel_sleep_enter_state)
    moreover have "\<exists>bh b lk. tr = drain_events BHQ bh @ [EvTryLock b] @ lk @ [EvSleep]
                \<and> (if b then \<exists>nw rq tm. lk = [EvNow nw, EvTimerService nw]
                                @ drain_events RUNQ rq @ [EvMmService] @ tm @ [EvUnlock]
                              \<and> list_all timer_event tm
                    else lk = [])"
      using e tr k' by (intro exI [of _ bh] exI [of _ bb] exI [of _ lk]) simp
    ultimately show ?thesis
      by simp
  qed
  with eq show ?thesis by blast
qed

lemma shutdown_demo_pass:
  "case runloop_internal 5 (user_env 50) 0 shutdown_demo of
     Inl e \<Rightarrow> False
   | Inr (s', tr) \<Rightarrow>
       tr = [EvDequeue BHQ (Some 1), EvRun 1, EvDequeue BHQ (Some 2), EvRun 2,
             EvDequeue BHQ None, EvTryLock True, EvNow 10, EvTimerService 10,
             EvDequeue RUNQ (Some 3), EvRun 3, EvDequeue RUNQ None, EvMmService,
             EvNow 11, EvRunloopTimer 39, EvUnlock, EvSleep]
       \<and> thread_queue (cpuinfo_from_id s' 0) = [4]"
  by (simp add: shutdown_demo_def busy_demo_def user_env_def pass_eval)

theorem shutdown_pass_sleeps_witness:
  "shutting_down shutdown_demo
   \<and> get_current_thread (user_env 50) 0 shutdown_demo = Some 42
   \<and> (\<exists>s'. runloop_internal 5 (user_env 50) 0 shutdown_demo = Inr (s',
         [EvDequeue BHQ (Some 1), EvRun 1, EvDequeue BHQ (Some 2), EvRun 2,
          EvDequeue BHQ None, EvTryLock True, EvNow 10, EvTimerService 10,
          EvDequeue RUNQ (Some 3), EvRun 3, EvDequeue RUNQ None, EvMmService,
          EvNow 11, EvRunloopTimer 39, EvUnlock, EvSleep])
        \<and> thread_queue (cpuinfo_from_id s' 0) = [4]
        \<and> state (cpuinfo_from_id s' 0) = cpu_idle)"
proof -
  have d: "shutting_down shutdown_demo"
    by (simp add: shutdown_demo_def)
  have g: "get_current_thread (user_env 50) 0 shutdown_demo = Some 42"
    by (simp add: user_env_def)
  have a: "\<And>t s. shutting_down s \<Longrightarrow> shutting_down (apply_thunk (user_env 50) t s)"
    and b: "\<And>t s. shutting_down s \<Longrightarrow> shutting_down (timer_service (user_env 50) t s)"
    and c: "\<And>s. shutting_down s \<Longrightarrow> shutting_down (mm_service (user_env 50) s)"
    by (simp_all add: user_env_def quiet_env_def)
  from shutdown_demo_pass obtain s' where
    r: "runloop_internal 5 (user_env 50) 0 shutdown_demo = Inr (s',
         [EvDequeue BHQ (Some 1), EvRun 1, EvDequeue BHQ (Some 2), EvRun 2,
          EvDequeue BHQ None, EvTryLock True, EvNow 10, EvTimerService 10,
          EvDequeue RUNQ (Some 3), EvRun 3, EvDequeue RUNQ None, EvMmService,
          EvNow 11, EvRunloopTimer 39, EvUnlock, EvSleep])"
    and q: "thread_queue (cpuinfo_from_id s' 0) = [4]"
    by (cases "runloop_internal 5 (user_env 50) 0 shutdown_demo") auto
  from shutdown_pass_sleeps [OF d a b c, of 5 0] r
  have "state (cpuinfo_from_id s' 0) = cpu_idle"
    by blast
  with d g r q show ?thesis
    by blast
qed

text \<open>
  C9 without the proviso: the pass of CPU 0 on \<open>shutdown_demo\<close>, where
  \<open>shutting_down\<close> is set at entry, in an environment whose bottom half 1 clears the
  flag. The pause at entry is skipped, but after the work under the lock the flag is
  read again and found clear: thread 4 is dequeued from the thread queue of CPU 0 and
  run, and the pause closure 42 of the current thread is applied before the CPU sleeps.
\<close>

theorem shutdown_cleared_counterexample:
  "shutting_down shutdown_demo
   \<and> (\<exists>s'. runloop_internal 5 (restart_env 50) 0 shutdown_demo = Inr (s',
         [EvDequeue BHQ (Some 1), EvRun 1, EvDequeue BHQ (Some 2), EvRun 2,
          EvDequeue BHQ None, EvTryLock True, EvNow 10, EvTimerService 10,
          EvDequeue RUNQ (Some 3), EvRun 3, EvDequeue RUNQ None, EvMmService,
          EvNow 11, EvRunloopTimer 39, EvUnlock,
          EvDequeue (TQ 0) (Some 4), EvRun 4, EvPause 42, EvSleep])
        \<and> thread_queue (cpuinfo_from_id s' 0) = []
        \<and> \<not> shutting_down s')
   \<and> \<not> list_all halting_event
         [EvDequeue BHQ (Some 1), EvRun 1, EvDequeue BHQ (Some 2), EvRun 2,
          EvDequeue BHQ None, EvTryLock True, EvNow 10, EvTimerService 10,
          EvDequeue RUNQ (Some 3), EvRun 3, EvDequeue RUNQ None, EvMmService,
          EvNow 11, EvRunloopTimer 39, EvUnlock,
          EvDequeue (TQ 0) (Some 4), EvRun 4, EvPause 42, EvSleep]"
proof -
  have "case runloop_internal 5 (restart_env 50) 0 shutdown_demo of
     Inl e \<Rightarrow> False
   | Inr (s', tr) \<Rightarrow>
       tr = [EvDequeue BHQ (Some 1), EvRun 1, EvDequeue BHQ (Some 2), EvRun 2,
             EvDequeue BHQ None, EvTryLock True, EvNow 10, EvTimerService 10,
             EvDequeue RUNQ (Some 3), EvRun 3, EvDequeue RUNQ None, EvMmService,
             EvNow 11, EvRunloopTimer 39, EvUnlock,
             EvDequeue (TQ 0) (Some 4), EvRun 4, EvPause 42, EvSleep]
       \<and> thread_queue (cpuinfo_from_id s' 0) = [] \<and> \<not> shutting_down s'"
    by (simp add: shutdown_demo_def busy_demo_def restart_env_def user_env_def pass_eval)
  then have "\<exists>s'. runloop_internal 5 (restart_env 50) 0 shutdown_demo = Inr (s',
         [EvDequeue BHQ (Some 1), EvRun 1, EvDequeue BHQ (Some 2), EvRun 2,
          EvDequeue BHQ None, EvTryLock True, EvNow 10, EvTimerService 10,
          EvDequeue RUNQ (Some 3), EvRun 3, EvDequeue RUNQ None, EvMmService,
          EvNow 11, EvRunloopTimer 39, EvUnlock,
          EvDequeue (TQ 0) (Some 4), EvRun 4, EvPause 42, EvSleep])
        \<and> thread_queue (cpuinfo_from_id s' 0) = [] \<and> \<not> shutting_down s'"
    by (cases "runloop_internal 5 (restart_env 50) 0 shutdown_demo") auto
  moreover have "shutting_down shutdown_demo"
    by (simp add: shutdown_demo_def)
  ultimately show ?thesis
    by (simp add: halting_event_def)
qed

subsection \<open>The recorded deadline\<close>










subsection \<open>Pulling a thread\<close>

lemma dequeue_calls_simps [simp]:
  "dequeue_calls [] = []"
  "dequeue_calls (a @ b) = dequeue_calls a @ dequeue_calls b"
  "dequeue_calls (EvDequeue q r # tr) = EvDequeue q r # dequeue_calls tr"
  "dequeue_calls (wakeup_events m c) = []"
  by (simp_all add: dequeue_calls_def wakeup_events_def)

lemma dequeue_calls_pull [simp]: "dequeue_calls (pull_calls cs qs) = pull_calls cs qs"
  by (induction cs) (simp_all split: list.splits)

lemma pull_calls_append:
  "pull_calls (xs @ ys) qs
     = pull_calls xs qs @ (if pull_result xs qs = None then pull_calls ys qs else [])"
  by (induction xs) (simp_all split: list.splits)

lemma pull_result_append:
  "pull_result (xs @ ys) qs
     = (if pull_result xs qs = None then pull_result ys qs else pull_result xs qs)"
  by (induction xs) (simp_all split: list.splits)

lemma to_self_steps_holding:
  "idle_cpu_mask s = Some b \<Longrightarrow>
     \<exists>s' tr'. to_self_steps (Some x) cs s tr = Inr (Some x, s', tr')
       \<and> dequeue_calls tr' = dequeue_calls tr
       \<and> cpuinfo_from_id s' = cpuinfo_from_id s
       \<and> total_processors s' = total_processors s"
proof (induction cs arbitrary: s tr b)
  case Nil
  then show ?case by simp
next
  case (Cons c cs)
  show ?case
  proof (cases "thread_queue (cpuinfo_from_id s c) \<noteq> []")
    case True
    have m: "idle_cpu_mask (clear_idle b c s) = Some (b(c := False))"
      by (simp add: clear_idle_def)
    from Cons.IH [OF m, of "tr @ wakeup_events b c"] True Cons.prems show ?thesis
      by (simp add: to_self_step_hold clear_idle_def)
  next
    case False
    with Cons.IH [OF Cons.prems, of tr] Cons.prems show ?thesis
      by (simp add: to_self_step_hold)
  qed
qed

lemma to_self_steps_pull:
  "idle_cpu_mask s = Some b \<Longrightarrow>
     \<exists>s' tr'. to_self_steps None cs s tr
         = Inr (map_option snd (pull_result cs (\<lambda>c. thread_queue (cpuinfo_from_id s c))), s', tr')
       \<and> dequeue_calls tr'
           = dequeue_calls tr @ pull_calls cs (\<lambda>c. thread_queue (cpuinfo_from_id s c))
       \<and> cpuinfo_from_id s'
           = taken_from (pull_result cs (\<lambda>c. thread_queue (cpuinfo_from_id s c))) (cpuinfo_from_id s)
       \<and> total_processors s' = total_processors s
       \<and> (pull_result cs (\<lambda>c. thread_queue (cpuinfo_from_id s c)) = None \<longrightarrow> s' = s)"
proof (induction cs arbitrary: tr)
  case Nil
  then show ?case by (simp add: taken_from_def)
next
  case (Cons c cs)
  show ?case
  proof (cases "thread_queue (cpuinfo_from_id s c)")
    case Nil
    with Cons.IH [OF Cons.prems, of "tr @ [EvDequeue (TQ c) None]"] show ?thesis
      by (simp add: to_self_step_empty)
  next
    case (Cons y r)
    let ?s1 = "set_thread_queue c r s"
    let ?s2 = "if r \<noteq> [] then clear_idle b c ?s1 else ?s1"
    let ?ev = "if r \<noteq> [] then EvDequeue (TQ c) (Some y) # wakeup_events b c
               else [EvDequeue (TQ c) (Some y)]"
    have st: "to_self_step None c s = Inr (Some y, ?s2, ?ev)"
      using to_self_step_take [OF Cons.prems Cons] by simp
    have m: "\<exists>b'. idle_cpu_mask ?s2 = Some b'"
      using Cons.prems by (simp add: clear_idle_def set_thread_queue_def)
    then obtain b' where "idle_cpu_mask ?s2 = Some b'" ..
    from to_self_steps_holding [OF this, of y cs "tr @ ?ev"]
    obtain s' tr' where h: "to_self_steps (Some y) cs ?s2 (tr @ ?ev) = Inr (Some y, s', tr')"
      "dequeue_calls tr' = dequeue_calls (tr @ ?ev)"
      "cpuinfo_from_id s' = cpuinfo_from_id ?s2" "total_processors s' = total_processors ?s2"
      by blast
    have c2: "cpuinfo_from_id ?s2
        = (cpuinfo_from_id s)(c := (cpuinfo_from_id s c)\<lparr>thread_queue := r\<rparr>)"
      by (simp add: clear_idle_def set_thread_queue_def)
    have t2: "total_processors ?s2 = total_processors s"
      by (simp add: clear_idle_def set_thread_queue_def)
    have pr: "pull_result (c # cs) (\<lambda>c. thread_queue (cpuinfo_from_id s c)) = Some (c, y)"
      and pc: "pull_calls (c # cs) (\<lambda>c. thread_queue (cpuinfo_from_id s c))
                 = [EvDequeue (TQ c) (Some y)]"
      using Cons by simp_all
    have run: "to_self_steps None (c # cs) s tr = Inr (Some y, s', tr')"
      using st h(1) by simp
    have dq: "dequeue_calls tr' = dequeue_calls tr @ [EvDequeue (TQ c) (Some y)]"
      using h(2) by simp
    have ci: "cpuinfo_from_id s' = taken_from (Some (c, y)) (cpuinfo_from_id s)"
      using h(3) c2 Cons by (simp add: taken_from_def)
    have tp: "total_processors s' = total_processors s"
      using h(4) t2 by simp
    show ?thesis
      unfolding pr pc using run dq ci tp by simp
  qed
qed

lemma busy_visit_start:
  assumes "self < n"
  shows "busy_visit self n (self + 1) = scan_order self n"
proof (cases "self + 1 = n")
  case True
  then have "[self + 1..<n] = []" by simp
  with True show ?thesis by (simp add: busy_visit_def scan_order_def)
next
  case False
  then show ?thesis by (simp add: busy_visit_def scan_order_def)
qed

lemma busy_visit_self: "self < n \<Longrightarrow> busy_visit self n self = []"
  by (simp add: busy_visit_def)

lemma busy_visit_step:
  assumes "self < n" and "c < n" and "c \<noteq> self"
  shows "busy_visit self n c = c # busy_visit self n (c + 1)"
proof (cases "c < self")
  case True
  with assms show ?thesis
    by (simp add: busy_visit_def upt_conv_Cons)
next
  case False
  with assms have "self < c" by simp
  with assms show ?thesis
    by (auto simp: busy_visit_def upt_conv_Cons)
qed

lemma busy_visit_wrap:
  "busy_visit self n (if cpu = n then 0 else cpu) = busy_visit self n cpu"
  by (simp add: busy_visit_def)

lemma steal_busy_pull:
  assumes "self < total_processors s" and "cpu \<le> total_processors s"
  shows "\<exists>s'. steal_busy self cpu s tr
        = Inr (map_option snd
                 (pull_result
                    (filter (\<lambda>c. state (cpuinfo_from_id s c) = cpu_user)
                       (busy_visit self (total_processors s) cpu))
                    (\<lambda>c. thread_queue (cpuinfo_from_id s c))),
               s',
               tr @ pull_calls
                      (filter (\<lambda>c. state (cpuinfo_from_id s c) = cpu_user)
                         (busy_visit self (total_processors s) cpu))
                      (\<lambda>c. thread_queue (cpuinfo_from_id s c)))
      \<and> cpuinfo_from_id s'
          = taken_from
              (pull_result
                 (filter (\<lambda>c. state (cpuinfo_from_id s c) = cpu_user)
                    (busy_visit self (total_processors s) cpu))
                 (\<lambda>c. thread_queue (cpuinfo_from_id s c)))
              (cpuinfo_from_id s)"
  using assms
proof (induction self cpu s tr rule: steal_busy.induct)
  case (1 self cpu s tr)
  let ?n = "total_processors s"
  let ?c = "if cpu = ?n then 0 else cpu"
  let ?user = "\<lambda>c. state (cpuinfo_from_id s c) = cpu_user"
  let ?qs = "\<lambda>c. thread_queue (cpuinfo_from_id s c)"
  from "1.prems" have g: "\<not> (?n \<le> self \<or> ?n < cpu)" by simp
  from "1.prems" have cn: "?c < ?n" by auto
  show ?case
  proof (cases "?c = self")
    case True
    have "busy_visit self ?n cpu = []"
      using busy_visit_wrap [of self ?n cpu] True "1.prems"(1) by (simp add: busy_visit_self)
    with g True show ?thesis
      by (simp add: steal_busy.simps [of self cpu] taken_from_def)
  next
    case False
    have v: "busy_visit self ?n cpu = ?c # busy_visit self ?n (?c + 1)"
      using busy_visit_step [OF "1.prems"(1) cn False] busy_visit_wrap [of self ?n cpu]
      by simp
    from cn have le: "?c + 1 \<le> ?n" by simp
    show ?thesis
    proof (cases "?user ?c")
      case u: True
      show ?thesis
      proof (cases "?qs ?c")
        case Nil
        have dq: "dequeue (thread_queue (cpuinfo_from_id s ?c)) = (None, [])"
          using Nil by (simp add: dequeue_def)
        from "1.IH"(1) [OF g False u dq [symmetric] refl "1.prems"(1) le]
        obtain s' where r: "steal_busy self (?c + 1) s (tr @ [EvDequeue (TQ ?c) None])
            = Inr (map_option snd (pull_result (filter ?user (busy_visit self ?n (?c + 1))) ?qs),
                   s',
                   (tr @ [EvDequeue (TQ ?c) None])
                     @ pull_calls (filter ?user (busy_visit self ?n (?c + 1))) ?qs)"
          and ci: "cpuinfo_from_id s'
            = taken_from (pull_result (filter ?user (busy_visit self ?n (?c + 1))) ?qs)
                (cpuinfo_from_id s)"
          by blast
        have lhs: "steal_busy self cpu s tr
            = steal_busy self (?c + 1) s (tr @ [EvDequeue (TQ ?c) None])"
          using g False u dq by (simp add: steal_busy.simps [of self cpu])
        have pr: "pull_result (filter ?user (busy_visit self ?n cpu)) ?qs
            = pull_result (filter ?user (busy_visit self ?n (?c + 1))) ?qs"
          and pc: "pull_calls (filter ?user (busy_visit self ?n cpu)) ?qs
            = EvDequeue (TQ ?c) None # pull_calls (filter ?user (busy_visit self ?n (?c + 1))) ?qs"
          using u Nil by (simp_all add: v)
        show ?thesis
          unfolding pr pc lhs using r ci by simp
      next
        case (Cons y q)
        have dq: "dequeue (thread_queue (cpuinfo_from_id s ?c)) = (Some y, q)"
          using Cons by (simp add: dequeue_def)
        have lhs: "steal_busy self cpu s tr
            = Inr (Some y, set_thread_queue ?c q s, tr @ [EvDequeue (TQ ?c) (Some y)])"
          using g False u dq by (simp add: steal_busy.simps [of self cpu])
        have pr: "pull_result (filter ?user (busy_visit self ?n cpu)) ?qs = Some (?c, y)"
          and pc: "pull_calls (filter ?user (busy_visit self ?n cpu)) ?qs
            = [EvDequeue (TQ ?c) (Some y)]"
          using u Cons by (simp_all add: v)
        have ci: "cpuinfo_from_id (set_thread_queue ?c q s)
            = taken_from (Some (?c, y)) (cpuinfo_from_id s)"
          using Cons by (simp add: taken_from_def set_thread_queue_def)
        show ?thesis
          unfolding pr pc lhs using ci by simp
      qed
    next
      case nu: False
      from "1.IH"(2) [OF g False nu "1.prems"(1) le]
      obtain s' where r: "steal_busy self (?c + 1) s tr
            = Inr (map_option snd (pull_result (filter ?user (busy_visit self ?n (?c + 1))) ?qs),
                   s', tr @ pull_calls (filter ?user (busy_visit self ?n (?c + 1))) ?qs)"
          and ci: "cpuinfo_from_id s'
            = taken_from (pull_result (filter ?user (busy_visit self ?n (?c + 1))) ?qs)
                (cpuinfo_from_id s)"
          by blast
      have lhs: "steal_busy self cpu s tr = steal_busy self (?c + 1) s tr"
        using g False nu by (simp add: steal_busy.simps [of self cpu])
      have f: "filter ?user (busy_visit self ?n cpu) = filter ?user (busy_visit self ?n (?c + 1))"
        using nu by (simp add: v)
      show ?thesis
        unfolding f lhs using r ci by simp
    qed
  qed
qed

lemma to_self_steps_mask:
  "idle_cpu_mask s = Some b \<Longrightarrow> to_self_steps t cs s tr = Inr (t', s', tr') \<Longrightarrow>
     \<exists>b'. idle_cpu_mask s' = Some b'"
proof (induction cs arbitrary: t s tr b)
  case Nil
  then show ?case by simp
next
  case (Cons c cs)
  from to_self_step_total [OF Cons.prems(1), of t c]
  obtain t1 s1 ev b1 where st: "to_self_step t c s = Inr (t1, s1, ev)"
    and m: "idle_cpu_mask s1 = Some b1"
    by blast
  from Cons.prems(2) st have "to_self_steps t1 cs s1 (tr @ ev) = Inr (t', s', tr')"
    by simp
  from Cons.IH [OF m this] show ?case .
qed

lemma select_thread_empty:
  assumes "thread_queue (cpuinfo_from_id s self) = []"
  shows "select_thread self s =
     (case (if self + 1 < total_processors s
            then migrate_to_self None (self + 1) (total_processors s - self - 1) s
                   [EvDequeue (TQ self) None]
            else Inr (None, s, [EvDequeue (TQ self) None])) of
        Inl e \<Rightarrow> Inl e
      | Inr (t1, s1, tr1) \<Rightarrow>
          (case (if 0 < self then migrate_to_self t1 0 self s1 tr1 else Inr (t1, s1, tr1)) of
             Inl e \<Rightarrow> Inl e
           | Inr (t2, s2, tr2) \<Rightarrow>
               (if t2 = None then steal_busy self (self + 1) s2 tr2 else Inr (t2, s2, tr2))))"
  using assms by (simp add: select_thread_def dequeue_def Let_def)

lemma upper_scan:
  assumes "idle_cpu_mask s = Some b"
  shows "(if self + 1 < total_processors s
          then migrate_to_self t (self + 1) (total_processors s - self - 1) s tr
          else Inr (t, s, tr))
       = to_self_steps t (filter b [self + 1..<total_processors s]) s tr"
proof (cases "self + 1 < total_processors s")
  case True
  then have "self + 1 + (total_processors s - self - 1) = total_processors s" by simp
  with migrate_to_self_steps [OF assms, of t "self + 1" "total_processors s - self - 1" tr] True
  show ?thesis by (simp only: if_True)
next
  case False
  then have "[self + 1..<total_processors s] = []" by simp
  with False show ?thesis by simp
qed

lemma lower_scan:
  assumes "idle_cpu_mask s = Some b"
  shows "(if 0 < self then migrate_to_self t 0 self s tr else Inr (t, s, tr))
       = to_self_steps t (filter b [0..<self]) s tr"
proof (cases "0 < self")
  case True
  with migrate_to_self_steps [OF assms, of t 0 self tr] show ?thesis by simp
next
  case False
  then show ?thesis by simp
qed

lemma select_thread_pull:
  assumes mask: "idle_cpu_mask s = Some b"
    and self: "self < total_processors s"
    and own: "thread_queue (cpuinfo_from_id s self) = []"
  shows "\<exists>s1 tr1.
      select_thread self s
        = Inr (map_option snd
                 (if pull_result (filter b (scan_order self (total_processors s)))
                       (\<lambda>c. thread_queue (cpuinfo_from_id s c)) = None
                  then pull_result
                         (filter (\<lambda>c. state (cpuinfo_from_id s c) = cpu_user)
                            (scan_order self (total_processors s)))
                         (\<lambda>c. thread_queue (cpuinfo_from_id s c))
                  else pull_result (filter b (scan_order self (total_processors s)))
                         (\<lambda>c. thread_queue (cpuinfo_from_id s c))),
               s1, tr1)
    \<and> dequeue_calls tr1
        = EvDequeue (TQ self) None
          # pull_calls (filter b (scan_order self (total_processors s)))
              (\<lambda>c. thread_queue (cpuinfo_from_id s c))
          @ (if pull_result (filter b (scan_order self (total_processors s)))
                  (\<lambda>c. thread_queue (cpuinfo_from_id s c)) = None
             then pull_calls
                    (filter (\<lambda>c. state (cpuinfo_from_id s c) = cpu_user)
                       (scan_order self (total_processors s)))
                    (\<lambda>c. thread_queue (cpuinfo_from_id s c))
             else [])
    \<and> cpuinfo_from_id s1
        = taken_from
            (if pull_result (filter b (scan_order self (total_processors s)))
                  (\<lambda>c. thread_queue (cpuinfo_from_id s c)) = None
             then pull_result
                    (filter (\<lambda>c. state (cpuinfo_from_id s c) = cpu_user)
                       (scan_order self (total_processors s)))
                    (\<lambda>c. thread_queue (cpuinfo_from_id s c))
             else pull_result (filter b (scan_order self (total_processors s)))
                    (\<lambda>c. thread_queue (cpuinfo_from_id s c)))
            (cpuinfo_from_id s)"
proof -
  let ?n = "total_processors s"
  let ?qs = "\<lambda>c. thread_queue (cpuinfo_from_id s c)"
  let ?hi = "filter b [self + 1..<?n]"
  let ?lo = "filter b [0..<self]"
  let ?busy = "filter (\<lambda>c. state (cpuinfo_from_id s c) = cpu_user) (scan_order self ?n)"
  let ?tr0 = "[EvDequeue (TQ self) None]"
  have idle: "filter b (scan_order self ?n) = ?hi @ ?lo"
    by (simp add: scan_order_def)
  from to_self_steps_pull [OF mask, of ?hi ?tr0] obtain sA trA where
    A: "to_self_steps None ?hi s ?tr0 = Inr (map_option snd (pull_result ?hi ?qs), sA, trA)"
    and dA: "dequeue_calls trA = ?tr0 @ pull_calls ?hi ?qs"
    and cA: "cpuinfo_from_id sA = taken_from (pull_result ?hi ?qs) (cpuinfo_from_id s)"
    and nA: "pull_result ?hi ?qs = None \<longrightarrow> sA = s"
    by auto
  from to_self_steps_mask [OF mask A] obtain bA where mA: "idle_cpu_mask sA = Some bA" ..
  have sel: "select_thread self s =
      (case to_self_steps (map_option snd (pull_result ?hi ?qs)) (filter bA [0..<self]) sA trA of
         Inl e \<Rightarrow> Inl e
       | Inr (t2, s2, tr2) \<Rightarrow>
           (if t2 = None then steal_busy self (self + 1) s2 tr2 else Inr (t2, s2, tr2)))"
    by (simp only: select_thread_empty [OF own] upper_scan [OF mask] A lower_scan [OF mA]
        sum.case prod.case)
  show ?thesis
  proof (cases "pull_result ?hi ?qs")
    case (Some r)
    obtain c x where r: "r = (c, x)" by (cases r)
    from to_self_steps_holding [OF mA, of x "filter bA [0..<self]" trA]
    obtain sB trB where
      B: "to_self_steps (Some x) (filter bA [0..<self]) sA trA = Inr (Some x, sB, trB)"
      and dB: "dequeue_calls trB = dequeue_calls trA"
      and cB: "cpuinfo_from_id sB = cpuinfo_from_id sA"
      by blast
    from sel Some r B have run: "select_thread self s = Inr (Some x, sB, trB)"
      by simp
    have pr: "pull_result (filter b (scan_order self ?n)) ?qs = Some (c, x)"
      using Some r by (simp add: idle pull_result_append)
    have pc: "pull_calls (filter b (scan_order self ?n)) ?qs = pull_calls ?hi ?qs"
      using Some by (simp add: idle pull_calls_append)
    show ?thesis
      unfolding pr pc using run dB dA cB cA Some r by simp
  next
    case None
    with nA have sA: "sA = s" by simp
    with mA mask have bA: "bA = b" by simp
    from to_self_steps_pull [OF mask, of ?lo trA] obtain sB trB where
      B: "to_self_steps None ?lo s trA = Inr (map_option snd (pull_result ?lo ?qs), sB, trB)"
      and dB: "dequeue_calls trB = dequeue_calls trA @ pull_calls ?lo ?qs"
      and cB: "cpuinfo_from_id sB = taken_from (pull_result ?lo ?qs) (cpuinfo_from_id s)"
      and nB: "pull_result ?lo ?qs = None \<longrightarrow> sB = s"
      by auto
    have pr: "pull_result (filter b (scan_order self ?n)) ?qs = pull_result ?lo ?qs"
      using None by (simp add: idle pull_result_append)
    have pc: "pull_calls (filter b (scan_order self ?n)) ?qs
        = pull_calls ?hi ?qs @ pull_calls ?lo ?qs"
      using None by (simp add: idle pull_calls_append)
    show ?thesis
    proof (cases "pull_result ?lo ?qs")
      case lo: (Some r)
      obtain c x where r: "r = (c, x)" by (cases r)
      from sel None sA bA B lo r have run: "select_thread self s = Inr (Some x, sB, trB)"
        by simp
      show ?thesis
        unfolding pr pc using run dB dA cB lo r by simp
    next
      case lo: None
      with nB have sB: "sB = s" by simp
      from self have le: "self + 1 \<le> ?n" by simp
      from steal_busy_pull [OF self le, of trB] busy_visit_start [OF self]
      obtain s' where
        S: "steal_busy self (self + 1) s trB
              = Inr (map_option snd (pull_result ?busy ?qs), s', trB @ pull_calls ?busy ?qs)"
        and cS: "cpuinfo_from_id s' = taken_from (pull_result ?busy ?qs) (cpuinfo_from_id s)"
        by auto
      from sel None sA bA B lo sB S have run:
        "select_thread self s
           = Inr (map_option snd (pull_result ?busy ?qs), s', trB @ pull_calls ?busy ?qs)"
        by simp
      show ?thesis
        unfolding pr pc using run dB dA cS lo by simp
    qed
  qed
qed

lemma dequeued_calls: "dequeued (dequeue_calls tr) = dequeued tr"
proof (induction tr)
  case Nil
  then show ?case by simp
next
  case (Cons e tr)
  then show ?case by (cases e) (simp_all add: dequeue_calls_def)
qed

lemma dequeued_pull_calls:
  "dequeued (pull_calls cs qs) = held (map_option snd (pull_result cs qs))"
  by (induction cs) (simp_all split: list.splits)

lemma dequeued_pull_trace:
  "dequeued (pull_trace b self s) = held (map_option snd (pull_choice b self s))"
  by (simp add: pull_trace_def pull_choice_def dequeued_pull_calls)

text \<open>
  C6. Let \<open>shutting_down\<close> be false, the idle mask allocated, and the queue of the
  calling CPU empty, so that its own \<open>dequeue\<close> fails. Then the choice of a thread
  is the spec's pull: \<open>dequeue\<close> is called on the queues of the CPUs marked idle, in
  the order \<open>self + 1, ..., total_processors - 1, 0, ..., self - 1\<close> (never on that
  of \<open>self\<close> again), up to the first call that yields a thread; only if no idle CPU
  yielded one, it is called on the queues of the CPUs in state \<open>cpu_user\<close>, in the
  same order, up to the first call that yields a thread. There are no other calls of
  \<open>dequeue\<close>, so at most one thread is stolen, and none from a busy CPU once an idle
  one yielded. The thread chosen is the one that call yielded; it is gone from the
  head of that queue and all other queues are as before.
\<close>

theorem pull_scan_order:
  assumes "idle_cpu_mask s = Some b" and "self < total_processors s"
    and "thread_queue (cpuinfo_from_id s self) = []" and "\<not> shutting_down s"
  shows "\<exists>s1 tr1.
      select_thread self s = Inr (map_option snd (pull_choice b self s), s1, tr1)
    \<and> thread_phase E self tu s
        = Inr (fst (run_thread E self tu (map_option snd (pull_choice b self s)) s1),
               tr1 @ snd (run_thread E self tu (map_option snd (pull_choice b self s)) s1))
    \<and> dequeue_calls tr1 = EvDequeue (TQ self) None # pull_trace b self s
    \<and> cpuinfo_from_id s1 = taken_from (pull_choice b self s) (cpuinfo_from_id s)
    \<and> length (dequeued tr1) \<le> 1
    \<and> self \<notin> set (scan_order self (total_processors s))"
proof -
  from select_thread_pull [OF assms(1-3)] obtain s1 tr1 where
    sel: "select_thread self s = Inr (map_option snd (pull_choice b self s), s1, tr1)"
    and dq: "dequeue_calls tr1 = EvDequeue (TQ self) None # pull_trace b self s"
    and ci: "cpuinfo_from_id s1 = taken_from (pull_choice b self s) (cpuinfo_from_id s)"
    unfolding pull_choice_def pull_trace_def idle_candidates_def busy_candidates_def
    by auto
  have ph: "thread_phase E self tu s
        = Inr (fst (run_thread E self tu (map_option snd (pull_choice b self s)) s1),
               tr1 @ snd (run_thread E self tu (map_option snd (pull_choice b self s)) s1))"
    using assms(4) sel by (simp add: thread_phase_def split_beta)
  have "dequeued tr1 = dequeued (dequeue_calls tr1)"
    by (simp add: dequeued_calls)
  also have "\<dots> = held (map_option snd (pull_choice b self s))"
    by (simp add: dq dequeued_pull_trace)
  finally have one: "length (dequeued tr1) \<le> 1"
    by (simp add: held_def split: option.splits)
  have "self \<notin> set (scan_order self (total_processors s))"
    by (simp add: scan_order_def)
  with sel ph dq ci one show ?thesis
    by blast
qed

theorem pull_scan_order_witness:
  "idle_cpu_mask steal_demo = Some (\<lambda>c. c = 2) \<and> 1 < total_processors steal_demo
   \<and> thread_queue (cpuinfo_from_id steal_demo 1) = [] \<and> \<not> shutting_down steal_demo
   \<and> (\<exists>s1 tr1. select_thread 1 steal_demo = Inr (Some 9, s1, tr1)
         \<and> dequeue_calls tr1
             = [EvDequeue (TQ 1) None, EvDequeue (TQ 2) None, EvDequeue (TQ 0) (Some 9)]
         \<and> thread_queue (cpuinfo_from_id s1 0) = [])
   \<and> (\<exists>s1 tr1. select_thread 0 pull_demo = Inr (Some 5, s1, tr1)
         \<and> dequeue_calls tr1 = [EvDequeue (TQ 0) None, EvDequeue (TQ 1) (Some 5)]
         \<and> thread_queue (cpuinfo_from_id s1 1) = [6])"
proof -
  have a: "idle_cpu_mask steal_demo = Some (\<lambda>c. c = 2)" "1 < total_processors steal_demo"
    "thread_queue (cpuinfo_from_id steal_demo 1) = []" "\<not> shutting_down steal_demo"
    by (simp_all add: steal_demo_def queues_sched_def plain_sched_def fresh_cpu_def)
  have b: "idle_cpu_mask pull_demo = Some (\<lambda>c. c = 1 \<or> c = 2)" "0 < total_processors pull_demo"
    "thread_queue (cpuinfo_from_id pull_demo 0) = []" "\<not> shutting_down pull_demo"
    by (simp_all add: pull_demo_def queues_sched_def plain_sched_def fresh_cpu_def)
  have c: "pull_choice (\<lambda>c. c = 2) 1 steal_demo = Some (0, 9)"
    "pull_trace (\<lambda>c. c = 2) 1 steal_demo = [EvDequeue (TQ 2) None, EvDequeue (TQ 0) (Some 9)]"
    by (simp_all add: pull_choice_def pull_trace_def idle_candidates_def busy_candidates_def
        scan_order_def steal_demo_def queues_sched_def plain_sched_def fresh_cpu_def
        upt_conv_Cons)
  have d: "pull_choice (\<lambda>c. c = 1 \<or> c = 2) 0 pull_demo = Some (1, 5)"
    "pull_trace (\<lambda>c. c = 1 \<or> c = 2) 0 pull_demo = [EvDequeue (TQ 1) (Some 5)]"
    by (simp_all add: pull_choice_def pull_trace_def idle_candidates_def busy_candidates_def
        scan_order_def pull_demo_def queues_sched_def plain_sched_def fresh_cpu_def
        upt_conv_Cons)
  from pull_scan_order [OF a, where E = "quiet_env 0" and tu = False] obtain s1 tr1 where
    e: "select_thread 1 steal_demo = Inr (Some 9, s1, tr1)"
      "dequeue_calls tr1
         = [EvDequeue (TQ 1) None, EvDequeue (TQ 2) None, EvDequeue (TQ 0) (Some 9)]"
      "cpuinfo_from_id s1 = taken_from (Some (0, 9)) (cpuinfo_from_id steal_demo)"
    unfolding c by (simp only: option.map snd_conv append.simps) blast
  from e(3) have e3: "thread_queue (cpuinfo_from_id s1 0) = []"
    by (simp add: taken_from_def steal_demo_def queues_sched_def plain_sched_def fresh_cpu_def)
  from pull_scan_order [OF b, where E = "quiet_env 0" and tu = False] obtain s2 tr2 where
    f: "select_thread 0 pull_demo = Inr (Some 5, s2, tr2)"
      "dequeue_calls tr2 = [EvDequeue (TQ 0) None, EvDequeue (TQ 1) (Some 5)]"
      "cpuinfo_from_id s2 = taken_from (Some (1, 5)) (cpuinfo_from_id pull_demo)"
    unfolding d by (simp only: option.map snd_conv append.simps) blast
  from f(3) have f3: "thread_queue (cpuinfo_from_id s2 1) = [6]"
    by (simp add: taken_from_def pull_demo_def queues_sched_def plain_sched_def fresh_cpu_def)
  from a e(1,2) e3 f(1,2) f3 show ?thesis
    by blast
qed

end
